theory Spec2Isabelle
  imports Main "HOL-Library.Word" "HOL-Library.AList"
begin

section \<open>The disjoint-set forest of moneymatters.cpp\<close>

text \<open>
  The program keeps \<open>n\<close> heap nodes, reached through the array \<open>nodes\<close>. A node pointer
  is modelled by the index of the node in that array, so the store is the list of the
  nodes and \<open>nodes[i]\<close> is the pointer \<open>i\<close>. The fields \<open>rank\<close> and \<open>money\<close> are C++
  \<open>int\<close>: 32-bit words here, read as signed where the code compares them, with the
  two's-complement wrap-around of the usual compilers on \<open>+\<close> (signed overflow itself is
  undefined in C++).
\<close>

type_synonym cint = "32 word"

record Node =
  parent :: nat
  rank :: cint
  money :: cint

type_synonym forest = "Node list"

text \<open>
  The code checks no pointer and no index. Dereferencing a pointer that is none of the
  \<open>n\<close> nodes is undefined behaviour in C++: the source has no branch for it. The model
  must give \<open>s ! x\<close> a meaning there, and marks the point with \<open>InvalidDereference\<close>
  and the store as it is at that moment; this is a convention of the model, which says
  nothing of what the program does from there on. Every operation returns its result
  (or that mark) together with the store it leaves. The value \<open>None\<close> of the option type
  stands for a call that never returns (unbounded recursion of \<open>find\<close> through a cycle
  of parent links).
\<close>

datatype fault = InvalidDereference

type_synonym 'a res = "(fault + 'a) \<times> forest"

text \<open>\<open>Node* find(Node* x)\<close>, lines 14 to 19 (named \<open>find_node\<close>: \<open>find\<close> is a list function).\<close>

partial_function (option) find_node :: "forest \<Rightarrow> nat \<Rightarrow> nat res option" where
  "find_node s x =
     (if length s \<le> x then Some (Inl InvalidDereference, s)
      else if parent (s ! x) \<noteq> x then
        Option.bind (find_node s (parent (s ! x)))
          (\<lambda>(r, s'). case r of
               Inl e \<Rightarrow> Some (Inl e, s')
             | Inr p \<Rightarrow> (let s'' = s'[x := (s' ! x)\<lparr>parent := p\<rparr>]
                        in Some (Inr (parent (s'' ! x)), s'')))
      else Some (Inr (parent (s ! x)), s))"

declare find_node.simps [code]

text \<open>
  \<open>void nodeUnion(Node* a, Node* b)\<close>, lines 21 to 36. The two declarators of line 22
  are initialised in order: \<open>find(a)\<close> runs, compression included, before \<open>find(b)\<close>.
\<close>

definition nodeUnion :: "forest \<Rightarrow> nat \<Rightarrow> nat \<Rightarrow> unit res option" where
  "nodeUnion s a b =
     Option.bind (find_node s a)
       (\<lambda>(ra, s1). case ra of
            Inl e \<Rightarrow> Some (Inl e, s1)
          | Inr rootA \<Rightarrow>
              Option.bind (find_node s1 b)
                (\<lambda>(rb, s2). case rb of
                     Inl e \<Rightarrow> Some (Inl e, s2)
                   | Inr rootB \<Rightarrow>
                       if rootA = rootB then Some (Inr (), s2)
                       else
                         let (rootA, rootB) =
                               (if sint (rank (s2 ! rootA)) < sint (rank (s2 ! rootB))
                                then (rootB, rootA) else (rootA, rootB));
                             s3 = s2[rootB := (s2 ! rootB)\<lparr>parent := rootA\<rparr>];
                             s4 = (if rank (s3 ! rootA) = rank (s3 ! rootB)
                                   then s3[rootA := (s3 ! rootA)\<lparr>rank := rank (s3 ! rootA) + 1\<rparr>]
                                   else s3)
                         in Some (Inr (), s4)))"

text \<open>
  \<open>bool query(Node* a, Node* b)\<close>, lines 38 to 40. C++ leaves the order of the two
  operands of \<open>==\<close> open; the model runs the left one first. No theorem below depends
  on that order: all are on entities of the forest, where both orders give the same
  answer.
\<close>

definition query :: "forest \<Rightarrow> nat \<Rightarrow> nat \<Rightarrow> bool res option" where
  "query s a b =
     Option.bind (find_node s a)
       (\<lambda>(ra, s1). case ra of
            Inl e \<Rightarrow> Some (Inl e, s1)
          | Inr rootA \<Rightarrow>
              Option.bind (find_node s1 b)
                (\<lambda>(rb, s2). case rb of
                     Inl e \<Rightarrow> Some (Inl e, s2)
                   | Inr rootB \<Rightarrow> Some (Inr (rootA = rootB), s2)))"

subsection \<open>The main program\<close>

text \<open>
  Lines 47 to 51: node \<open>i\<close> is allocated with the default member initialisers
  (\<open>parent = this\<close>, \<open>rank = 0\<close>, \<open>money = 0\<close>) and its \<open>money\<close> is then read from the input.
\<close>

definition new_Node :: "nat \<Rightarrow> Node" where
  "new_Node this = \<lparr>parent = this, rank = 0, money = 0\<rparr>"

definition make :: "cint list \<Rightarrow> forest" where
  "make ms = map (\<lambda>i. (new_Node i)\<lparr>money := ms ! i\<rparr>) [0..<length ms]"

text \<open>
  Lines 52 to 56: the union requests, in input order. The indices \<open>a\<close> and \<open>b\<close> are read
  as \<open>int\<close> and index the array unchecked; an index outside the array is a natural
  that is \<open>n\<close> or more here, a pointer that is none of the nodes.
\<close>

fun unions :: "forest \<Rightarrow> (nat \<times> nat) list \<Rightarrow> unit res option" where
  "unions s [] = Some (Inr (), s)"
| "unions s ((a, b) # us) =
     Option.bind (nodeUnion s a b)
       (\<lambda>(r, s'). case r of Inl e \<Rightarrow> Some (Inl e, s') | Inr _ \<Rightarrow> unions s' us)"

text \<open>
  Lines 58 to 66. The \<open>unordered_map<Node*, int>\<close> is an association list with one
  entry for each key; \<open>sums[parent]\<close> reads an absent key as 0.
\<close>

type_synonym sums = "(nat \<times> cint) list"

definition sums_at :: "sums \<Rightarrow> nat \<Rightarrow> cint" where
  "sums_at sums k = (case map_of sums k of None \<Rightarrow> 0 | Some v \<Rightarrow> v)"

definition accumulate :: "sums \<Rightarrow> nat \<Rightarrow> cint \<Rightarrow> sums" where
  "accumulate sums p m =
     (let sums1 = (if map_of sums p = None then AList.update p 0 sums else sums)
      in AList.update p (sums_at sums1 p + m) sums1)"

text \<open>The loop of line 60 over a list of indices; the program scans \<open>0, ..., n - 1\<close>.\<close>

fun sum_loop :: "forest \<Rightarrow> sums \<Rightarrow> nat list \<Rightarrow> sums res option" where
  "sum_loop s sums [] = Some (Inr sums, s)"
| "sum_loop s sums (i # is) =
     Option.bind (find_node s i)
       (\<lambda>(r, s'). case r of
            Inl e \<Rightarrow> Some (Inl e, s')
          | Inr p \<Rightarrow> sum_loop s' (accumulate sums p (money (s' ! i))) is)"

datatype verdict = POSSIBLE | IMPOSSIBLE

text \<open>Lines 68 to 75: the first entry that is not zero decides.\<close>

fun check_sums :: "sums \<Rightarrow> verdict" where
  "check_sums [] = POSSIBLE"
| "check_sums (el # els) = (if snd el \<noteq> 0 then IMPOSSIBLE else check_sums els)"

definition verify_scan :: "forest \<Rightarrow> nat list \<Rightarrow> verdict res option" where
  "verify_scan s is =
     Option.bind (sum_loop s [] is)
       (\<lambda>(r, s'). case r of
            Inl e \<Rightarrow> Some (Inl e, s')
          | Inr sums \<Rightarrow> Some (Inr (check_sums sums), s'))"

definition verify :: "forest \<Rightarrow> verdict res option" where
  "verify s = verify_scan s [0..<length s]"

definition main :: "cint list \<Rightarrow> (nat \<times> nat) list \<Rightarrow> (fault + verdict) option" where
  "main ms us =
     Option.bind (unions (make ms) us)
       (\<lambda>(r, s). case r of
            Inl e \<Rightarrow> Some (Inl e)
          | Inr _ \<Rightarrow> map_option fst (verify s))"

subsection \<open>Sequences of calls\<close>

datatype call = Find nat | NodeUnion nat nat | Query nat nat

fun do_call :: "forest \<Rightarrow> call \<Rightarrow> unit res option" where
  "do_call s (Find x) = map_option (\<lambda>(r, s'). (map_sum id (\<lambda>_. ()) r, s')) (find_node s x)"
| "do_call s (NodeUnion a b) = nodeUnion s a b"
| "do_call s (Query a b) = map_option (\<lambda>(r, s'). (map_sum id (\<lambda>_. ()) r, s')) (query s a b)"

fun run :: "forest \<Rightarrow> call list \<Rightarrow> unit res option" where
  "run s [] = Some (Inr (), s)"
| "run s (c # cs) =
     Option.bind (do_call s c)
       (\<lambda>(r, s'). case r of Inl e \<Rightarrow> Some (Inl e, s') | Inr _ \<Rightarrow> run s' cs)"

subsection \<open>Representatives and groups\<close>

text \<open>
  \<open>walk l x p r\<close>: in the parent array \<open>l\<close>, following the parent links from \<open>x\<close> passes
  the entities \<open>p\<close> (none of them a root, \<open>x\<close> first) and ends at the root \<open>r\<close>, an entity
  that is its own parent.
\<close>

inductive walk :: "nat list \<Rightarrow> nat \<Rightarrow> nat list \<Rightarrow> nat \<Rightarrow> bool"
  for l :: "nat list" where
  at_root: "x < length l \<Longrightarrow> l ! x = x \<Longrightarrow> walk l x [] x"
| up: "x < length l \<Longrightarrow> l ! x \<noteq> x \<Longrightarrow> walk l (l ! x) p r \<Longrightarrow> walk l x (x # p) r"

definition parents :: "forest \<Rightarrow> nat list" where
  "parents s = map parent s"

definition root_of :: "forest \<Rightarrow> nat \<Rightarrow> nat \<Rightarrow> bool" where
  "root_of s x r = (\<exists>p. walk (parents s) x p r)"

definition valid :: "forest \<Rightarrow> bool" where
  "valid s = (\<forall>x<length s. \<exists>r. root_of s x r)"

definition grouped :: "forest \<Rightarrow> nat \<Rightarrow> nat \<Rightarrow> bool" where
  "grouped s a b = (\<exists>r. root_of s a r \<and> root_of s b r)"

text \<open>The store after the parent link of every entity of \<open>p\<close> is set to \<open>r\<close>.\<close>

fun compress :: "forest \<Rightarrow> nat list \<Rightarrow> nat \<Rightarrow> forest" where
  "compress s [] r = s"
| "compress s (x # p) r = (let t = compress s p r in t[x := (t ! x)\<lparr>parent := r\<rparr>])"

subsection \<open>Notions used in the proofs\<close>

text \<open>
  Lines 27 to 35, for two distinct roots \<open>ra\<close> and \<open>rb\<close> of the store the two calls of
  \<open>find\<close> leave: the root that stays a root and the one that is hung under it, the
  assignment of line 33, the increment of lines 34 and 35, and the three together.
\<close>

definition winner :: "forest \<Rightarrow> nat \<Rightarrow> nat \<Rightarrow> nat" where
  "winner s ra rb = (if sint (rank (s ! ra)) < sint (rank (s ! rb)) then rb else ra)"

definition loser :: "forest \<Rightarrow> nat \<Rightarrow> nat \<Rightarrow> nat" where
  "loser s ra rb = (if sint (rank (s ! ra)) < sint (rank (s ! rb)) then ra else rb)"

definition attach :: "forest \<Rightarrow> nat \<Rightarrow> nat \<Rightarrow> forest" where
  "attach s lo hi = s[lo := (s ! lo)\<lparr>parent := hi\<rparr>]"

definition bump :: "forest \<Rightarrow> nat \<Rightarrow> nat \<Rightarrow> forest" where
  "bump s lo hi = (if rank (s ! hi) = rank (s ! lo) then s[hi := (s ! hi)\<lparr>rank := rank (s ! hi) + 1\<rparr>] else s)"

definition merge :: "forest \<Rightarrow> nat \<Rightarrow> nat \<Rightarrow> forest" where
  "merge s ra rb = bump (attach s (loser s ra rb) (winner s ra rb)) (loser s ra rb) (winner s ra rb)"

text \<open>
  \<open>coarser s s'\<close>: the store \<open>s'\<close> is a valid forest on the entities of \<open>s\<close>, with their
  values, in which every group of \<open>s\<close> is still together.
\<close>

definition coarser :: "forest \<Rightarrow> forest \<Rightarrow> bool" where
  "coarser s s' \<longleftrightarrow>
     valid s' \<and> length s' = length s \<and> map money s' = map money s \<and>
     (\<forall>x y. grouped s x y \<longrightarrow> grouped s' x y)"

text \<open>A call whose arguments are entities of a forest of \<open>n\<close> entities.\<close>

fun in_range :: "nat \<Rightarrow> call \<Rightarrow> bool" where
  "in_range n (Find x) \<longleftrightarrow> x < n"
| "in_range n (NodeUnion a b) \<longleftrightarrow> a < n \<and> b < n"
| "in_range n (Query a b) \<longleftrightarrow> a < n \<and> b < n"

text \<open>
  Example forests: \<open>chain4\<close> and \<open>chain5\<close> are what the unions \<open>(0,1)\<close>, \<open>(2,3)\<close>, \<open>(0,2)\<close>
  build from four and from five fresh nodes, with entity 3 two links away from its root;
  \<open>flat5\<close> is \<open>chain5\<close> after the union \<open>(3,4)\<close>.
\<close>

definition chain4 :: forest where
  "chain4 = [\<lparr>parent = 0, rank = 2, money = 1\<rparr>, \<lparr>parent = 0, rank = 0, money = 2\<rparr>,
             \<lparr>parent = 0, rank = 1, money = 3\<rparr>, \<lparr>parent = 2, rank = 0, money = 4\<rparr>]"

definition chain5 :: forest where
  "chain5 = [\<lparr>parent = 0, rank = 2, money = 1\<rparr>, \<lparr>parent = 0, rank = 0, money = 2\<rparr>,
             \<lparr>parent = 0, rank = 1, money = 3\<rparr>, \<lparr>parent = 2, rank = 0, money = 4\<rparr>,
             \<lparr>parent = 4, rank = 0, money = 5\<rparr>]"

definition flat5 :: forest where
  "flat5 = [\<lparr>parent = 0, rank = 2, money = 1\<rparr>, \<lparr>parent = 0, rank = 0, money = 2\<rparr>,
            \<lparr>parent = 0, rank = 1, money = 3\<rparr>, \<lparr>parent = 0, rank = 0, money = 4\<rparr>,
            \<lparr>parent = 0, rank = 0, money = 5\<rparr>]"

text \<open>
  Two nodes of value \<open>INT_MIN\<close> after the union \<open>(0,1)\<close>.
\<close>

definition low2 :: forest where
  "low2 = [\<lparr>parent = 0, rank = 1, money = - 2147483648\<rparr>,
           \<lparr>parent = 0, rank = 0, money = - 2147483648\<rparr>]"

text \<open>The sums after a scan in which entity \<open>i\<close> adds \<open>f i\<close> to the entry of \<open>rt i\<close>.\<close>

definition tally :: "(nat \<Rightarrow> nat) \<Rightarrow> (nat \<Rightarrow> cint) \<Rightarrow> sums \<Rightarrow> nat list \<Rightarrow> sums" where
  "tally rt f sums is = fold (\<lambda>i sm. accumulate sm (rt i) (f i)) is sums"

text \<open>The root of an entity, where the forest has one for it.\<close>

definition rep :: "forest \<Rightarrow> nat \<Rightarrow> nat" where
  "rep s i = (THE r. root_of s i r)"

text \<open>
  The sum of the values of the entities whose root is \<open>r\<close> as the code adds them: in
  32-bit words, modulo \<open>2^32\<close>. It is not the integer sum, which is \<open>int_sum\<close> below.
\<close>

definition rep_sum :: "forest \<Rightarrow> nat \<Rightarrow> cint" where
  "rep_sum s r = (\<Sum>i | root_of s i r. money (s ! i))"

text \<open>The sum of the values of the entities whose root is \<open>r\<close>, as an integer.\<close>

definition int_sum :: "forest \<Rightarrow> nat \<Rightarrow> int" where
  "int_sum s r = (\<Sum>i | root_of s i r. sint (money (s ! i)))"

section \<open>Walks\<close>

lemma walk_det: "walk l x p r \<Longrightarrow> walk l x p' r' \<Longrightarrow> p' = p \<and> r' = r"
proof (induction arbitrary: p' r' rule: walk.induct)
  case (at_root x)
  from at_root.prems at_root.hyps show ?case by (cases rule: walk.cases) auto
next
  case (up x p r)
  from up.prems up.hyps(1,2) obtain q where "p' = x # q" "walk l (l ! x) q r'"
    by (cases rule: walk.cases) auto
  with up.IH show ?case by blast
qed

lemma walk_bounds: "walk l x p r \<Longrightarrow> x < length l \<and> r < length l \<and> l ! r = r"
  by (induction rule: walk.induct) auto

lemma walk_path: "walk l x p r \<Longrightarrow> y \<in> set p \<Longrightarrow> y < length l \<and> l ! y \<noteq> y \<and> (\<exists>q. walk l y q r)"
proof (induction rule: walk.induct)
  case (at_root x)
  then show ?case by simp
next
  case (up x p r)
  show ?case
  proof (cases "y = x")
    case True
    with up.hyps show ?thesis by (auto intro: walk.up)
  next
    case False
    with up show ?thesis by auto
  qed
qed

lemma walk_root_notin: "walk l x p r \<Longrightarrow> r \<notin> set p"
  using walk_path walk_bounds by blast

lemma walk_root: "x < length l \<Longrightarrow> l ! x = x \<Longrightarrow> walk l x p r \<longleftrightarrow> p = [] \<and> r = x"
  using walk_det walk.at_root by blast

section \<open>Path compression and linking\<close>

lemma length_compress [simp]: "length (compress s p r) = length s"
  by (induction p) (auto simp: Let_def)

lemma compress_nth:
  "i < length s \<Longrightarrow> compress s p r ! i = (if i \<in> set p then (s ! i)\<lparr>parent := r\<rparr> else s ! i)"
proof (induction p)
  case Nil
  then show ?case by simp
next
  case (Cons a p)
  then show ?case by (cases "a = i") (simp_all add: Let_def)
qed

lemma parents_compress:
  "parents (compress s p r) = map (\<lambda>i. if i \<in> set p then r else parents s ! i) [0..<length s]"
  by (rule nth_equalityI) (auto simp: parents_def compress_nth)

lemma length_parents [simp]: "length (parents s) = length s"
  by (simp add: parents_def)

lemma parents_nth [simp]: "i < length s \<Longrightarrow> parents s ! i = parent (s ! i)"
  by (simp add: parents_def)

lemma find_node_walk:
  "walk (parents s) x p r \<Longrightarrow> find_node s x = Some (Inr r, compress s p r)"
proof (induction rule: walk.induct)
  case (at_root x)
  then show ?case by (subst find_node.simps) simp
next
  case (up x p r)
  then show ?case by (subst find_node.simps) (simp add: Let_def)
qed

text \<open>Compressing a path keeps every walk's root.\<close>

lemma walk_compress:
  assumes c: "walk l x p r" and w: "walk l y q r'"
    and len: "length l' = length l"
    and nth: "\<And>i. i < length l \<Longrightarrow> l' ! i = (if i \<in> set p then r else l ! i)"
  shows "\<exists>q'. walk l' y q' r' \<and> set q' \<subseteq> set q"
  using w
proof (induction rule: walk.induct)
  case (at_root y)
  from c at_root.hyps have "y \<notin> set p"
    using walk_path by blast
  with at_root nth have "l' ! y = y" by simp
  with at_root.hyps len have "walk l' y [] y" by (intro walk.at_root) simp_all
  then show ?case by auto
next
  case (up y q r')
  from up.IH obtain q' where q': "walk l' (l ! y) q' r'" "set q' \<subseteq> set q" by blast
  show ?case
  proof (cases "y \<in> set p")
    case True
    from walk_path [OF c True] obtain q2 where "walk l y q2 r" by blast
    moreover have "walk l y (y # q) r'" using up.hyps by (rule walk.up)
    ultimately have rr: "r' = r" using walk_det by blast
    from c have r: "r < length l" "l ! r = r" "r \<notin> set p"
      using walk_bounds walk_root_notin by blast+
    with nth have "l' ! r = r" by simp
    with r len have "walk l' r [] r" by (intro walk.at_root) simp_all
    moreover from True up.hyps(1) nth have "l' ! y = r" by simp
    moreover from r True have "r \<noteq> y" by blast
    ultimately have "walk l' y [y] r" using up.hyps(1) len by (intro walk.up) simp_all
    with rr show ?thesis by auto
  next
    case False
    with up.hyps(1) nth have "l' ! y = l ! y" by simp
    with q' up.hyps(1,2) len have "walk l' y (y # q') r'" by (intro walk.up) simp_all
    moreover from q'(2) have "set (y # q') \<subseteq> set (y # q)" by auto
    ultimately show ?thesis by blast
  qed
qed

text \<open>Hanging the root \<open>lo\<close> under another root \<open>hi\<close>.\<close>

lemma walk_link:
  assumes w: "walk l y q r"
    and lo: "lo < length l" "l ! lo = lo" and hi: "hi < length l" "l ! hi = hi" and ne: "lo \<noteq> hi"
  shows "\<exists>q'. walk (l[lo := hi]) y q' (if r = lo then hi else r)"
  using w lo hi
proof (induction rule: walk.induct)
  case (at_root y)
  show ?case
  proof (cases "y = lo")
    case True
    from at_root ne have "walk (l[lo := hi]) hi [] hi" by (auto intro!: walk.at_root)
    with at_root ne True have "walk (l[lo := hi]) lo [lo] hi" by (auto intro!: walk.up)
    with True show ?thesis by auto
  next
    case False
    with at_root have "walk (l[lo := hi]) y [] y" by (auto intro!: walk.at_root)
    with False show ?thesis by auto
  qed
next
  case (up y q r)
  from up.hyps(2) up.prems(2) have "y \<noteq> lo" by blast
  with up.hyps have "(l[lo := hi]) ! y = l ! y" by simp
  moreover from up.IH [OF up.prems] obtain q' where
    "walk (l[lo := hi]) (l ! y) q' (if r = lo then hi else r)" by blast
  ultimately have "walk (l[lo := hi]) y (y # q') (if r = lo then hi else r)"
    using up.hyps(1,2) by (auto intro!: walk.up)
  then show ?case by blast
qed

text \<open>Roots, read from the store.\<close>

lemma root_of_det: "root_of s x r \<Longrightarrow> root_of s x r' \<Longrightarrow> r' = r"
  unfolding root_of_def using walk_det by blast

lemma root_of_bounds: "root_of s x r \<Longrightarrow> x < length s \<and> r < length s \<and> parent (s ! r) = r"
  unfolding root_of_def by (auto dest: walk_bounds)

lemma root_of_root: "root_of s x r \<Longrightarrow> root_of s r r"
  unfolding root_of_def by (auto dest!: walk_bounds intro!: walk.at_root)

lemma root_of_self: "r < length s \<Longrightarrow> parent (s ! r) = r \<Longrightarrow> root_of s r x \<longleftrightarrow> x = r"
  unfolding root_of_def using walk_root [of r "parents s"] by auto

lemma map_rank_compress [simp]: "map rank (compress s p r) = map rank s"
  by (rule nth_equalityI) (simp_all add: compress_nth)

lemma map_money_compress [simp]: "map money (compress s p r) = map money s"
  by (rule nth_equalityI) (simp_all add: compress_nth)

lemma compress_root_of:
  assumes "walk (parents s) x p r" "root_of s y r'"
  shows "root_of (compress s p r) y r'"
proof -
  from assms(2) obtain q where q: "walk (parents s) y q r'" by (auto simp: root_of_def)
  have "\<exists>q'. walk (parents (compress s p r)) y q' r' \<and> set q' \<subseteq> set q"
    by (rule walk_compress [OF assms(1) q]) (simp_all add: parents_compress)
  then show ?thesis by (auto simp: root_of_def)
qed

lemma compress_valid:
  assumes "walk (parents s) x p r" "valid s"
  shows "valid (compress s p r)"
  using assms compress_root_of unfolding valid_def by (metis length_compress)

lemma compress_root_of_eq:
  assumes w: "walk (parents s) x p r" and v: "valid s"
  shows "root_of (compress s p r) = root_of s"
proof (intro ext iffI)
  fix y r'
  assume "root_of s y r'"
  with w show "root_of (compress s p r) y r'" by (rule compress_root_of)
next
  fix y r'
  assume c: "root_of (compress s p r) y r'"
  then have "y < length s" using root_of_bounds by fastforce
  with v obtain r2 where r2: "root_of s y r2" by (auto simp: valid_def)
  with w have "root_of (compress s p r) y r2" by (rule compress_root_of)
  with c have "r2 = r'" by (rule root_of_det)
  with r2 show "root_of s y r'" by simp
qed

text \<open>What a call of \<open>find\<close> on an entity of a valid forest does.\<close>

lemma find_node_valid:
  assumes "valid s" "x < length s"
  obtains p r where "walk (parents s) x p r" "find_node s x = Some (Inr r, compress s p r)"
    "valid (compress s p r)" "root_of (compress s p r) = root_of s"
proof -
  from assms obtain p r where w: "walk (parents s) x p r" by (auto simp: valid_def root_of_def)
  show thesis
    by (rule that [OF w find_node_walk [OF w] compress_valid [OF w assms(1)]
          compress_root_of_eq [OF w assms(1)]])
qed

lemma grouped_cong: "root_of t = root_of s \<Longrightarrow> grouped t = grouped s"
  by (simp add: grouped_def fun_eq_iff)

subsection \<open>The merge step of \<open>nodeUnion\<close>\<close>

lemma nodeUnion_finds:
  assumes "find_node s a = Some (Inr ra, s1)" "find_node s1 b = Some (Inr rb, s2)"
  shows "nodeUnion s a b = Some (Inr (), if ra = rb then s2 else merge s2 ra rb)"
  using assms by (simp add: nodeUnion_def merge_def bump_def attach_def winner_def loser_def Let_def)

lemma map_update_same: "(map f s)[i := f (s ! i)] = map f s"
  by (metis list_update_id map_update)

lemma length_attach [simp]: "length (attach s lo hi) = length s"
  by (simp add: attach_def)

lemma length_bump [simp]: "length (bump s lo hi) = length s"
  by (simp add: bump_def)

lemma map_money_attach [simp]: "map money (attach s lo hi) = map money s"
  by (simp add: attach_def map_update map_update_same)

lemma map_money_bump [simp]: "map money (bump s lo hi) = map money s"
  by (simp add: bump_def map_update map_update_same)

lemma parents_attach: "parents (attach s lo hi) = (parents s)[lo := hi]"
  by (simp add: parents_def attach_def map_update)

lemma parents_bump [simp]: "parents (bump s lo hi) = parents s"
  by (simp add: parents_def bump_def map_update map_update_same)

lemma length_merge [simp]: "length (merge s ra rb) = length s"
  by (simp add: merge_def)

lemma map_money_merge [simp]: "map money (merge s ra rb) = map money s"
  by (simp add: merge_def)

lemma parents_merge: "parents (merge s ra rb) = (parents s)[loser s ra rb := winner s ra rb]"
  by (simp add: merge_def parents_attach)

lemma merge_root_of:
  assumes ra: "root_of s ra ra" and rb: "root_of s rb rb" and ne: "ra \<noteq> rb"
    and y: "root_of s y r"
  shows "root_of (merge s ra rb) y (if r = loser s ra rb then winner s ra rb else r)"
proof -
  let ?lo = "loser s ra rb" and ?hi = "winner s ra rb"
  from ra rb have b: "ra < length s" "rb < length s" "parent (s ! ra) = ra" "parent (s ! rb) = rb"
    using root_of_bounds by blast+
  then have lo: "?lo < length (parents s)" "parents s ! ?lo = ?lo"
    and hi: "?hi < length (parents s)" "parents s ! ?hi = ?hi"
    by (simp_all add: winner_def loser_def)
  from ne have "?lo \<noteq> ?hi" by (simp add: winner_def loser_def)
  moreover from y obtain q where "walk (parents s) y q r" by (auto simp: root_of_def)
  ultimately show ?thesis
    using walk_link [OF _ lo hi] by (simp add: root_of_def parents_merge)
qed

lemma merge_valid:
  assumes "root_of s ra ra" "root_of s rb rb" "ra \<noteq> rb" "valid s"
  shows "valid (merge s ra rb)"
  using merge_root_of [OF assms(1-3)] assms(4) unfolding valid_def by (metis length_merge)

lemma merge_grouped:
  assumes "root_of s ra ra" "root_of s rb rb" "ra \<noteq> rb" "grouped s x y"
  shows "grouped (merge s ra rb) x y"
  using merge_root_of [OF assms(1-3)] assms(4) unfolding grouped_def by metis

subsection \<open>The initial forest\<close>

lemma length_make [simp]: "length (make ms) = length ms"
  by (simp add: make_def)

lemma make_nth: "i < length ms \<Longrightarrow> make ms ! i = \<lparr>parent = i, rank = 0, money = ms ! i\<rparr>"
  by (simp add: make_def new_Node_def)

lemma map_money_make [simp]: "map money (make ms) = ms"
  by (rule nth_equalityI) (simp_all add: make_nth)

lemma make_root_of: "root_of (make ms) x r \<longleftrightarrow> x < length ms \<and> r = x"
proof (cases "x < length ms")
  case True
  then show ?thesis using root_of_self [of x "make ms" r] by (auto simp: make_nth)
next
  case False
  then show ?thesis using root_of_bounds [of "make ms" x r] by auto
qed

lemma make_valid: "valid (make ms)"
  by (simp add: valid_def make_root_of)

subsection \<open>Calls that return\<close>

lemma coarser_refl: "valid s \<Longrightarrow> coarser s s"
  by (simp add: coarser_def)

lemma coarser_trans: "coarser s t \<Longrightarrow> coarser t u \<Longrightarrow> coarser s u"
  by (simp add: coarser_def)

lemma find_node_fault: "length s \<le> x \<Longrightarrow> find_node s x = Some (Inl InvalidDereference, s)"
  by (subst find_node.simps) simp

lemma find_node_Inr_bound: "find_node s x = Some (Inr r, s') \<Longrightarrow> x < length s"
  by (rule ccontr) (simp add: find_node_fault)

lemma find_node_coarser:
  assumes "valid s" "find_node s x = Some (Inr r, s')"
  shows "coarser s s' \<and> root_of s' = root_of s \<and> root_of s x r"
proof -
  from assms(2) have "x < length s" by (rule find_node_Inr_bound)
  with assms(1) obtain p r0 where w: "walk (parents s) x p r0"
    and f: "find_node s x = Some (Inr r0, compress s p r0)"
    and v: "valid (compress s p r0)" and e: "root_of (compress s p r0) = root_of s"
    by (rule find_node_valid)
  from f assms(2) have eq: "r = r0" "s' = compress s p r0" by simp_all
  from e have "grouped (compress s p r0) = grouped s" by (rule grouped_cong)
  with v have "coarser s (compress s p r0)" by (simp add: coarser_def)
  moreover from w have "root_of s x r0" by (auto simp: root_of_def)
  ultimately show ?thesis using e eq by simp
qed

lemma nodeUnion_valid:
  assumes v: "valid s" and a: "a < length s" and b: "b < length s"
  obtains s' where "nodeUnion s a b = Some (Inr (), s')" "coarser s s'" "grouped s' a b"
proof -
  from v a obtain p ra where wa: "walk (parents s) a p ra"
    and fa: "find_node s a = Some (Inr ra, compress s p ra)"
    and v1: "valid (compress s p ra)" and e1: "root_of (compress s p ra) = root_of s"
    by (rule find_node_valid)
  let ?s1 = "compress s p ra"
  from b have "b < length ?s1" by simp
  with v1 obtain q rb where wb: "walk (parents ?s1) b q rb"
    and fb: "find_node ?s1 b = Some (Inr rb, compress ?s1 q rb)"
    and v2: "valid (compress ?s1 q rb)" and e2: "root_of (compress ?s1 q rb) = root_of ?s1"
    by (rule find_node_valid)
  let ?s2 = "compress ?s1 q rb"
  from e1 e2 have e: "root_of ?s2 = root_of s" by simp
  from e have "grouped ?s2 = grouped s" by (rule grouped_cong)
  with v2 have c2: "coarser s ?s2" by (simp add: coarser_def)
  from wa e have ra: "root_of ?s2 a ra" by (auto simp: root_of_def)
  from wb e2 have rb: "root_of ?s2 b rb" by (auto simp: root_of_def)
  note u = nodeUnion_finds [OF fa fb]
  show thesis
  proof (cases "ra = rb")
    case True
    with ra rb have "grouped ?s2 a b" by (auto simp: grouped_def)
    with True u c2 show thesis by (intro that [of ?s2]) simp_all
  next
    case False
    let ?s3 = "merge ?s2 ra rb"
    from ra rb have rr: "root_of ?s2 ra ra" "root_of ?s2 rb rb" by (auto intro: root_of_root)
    have "valid ?s3" using rr False v2 by (rule merge_valid)
    moreover have "\<forall>x y. grouped ?s2 x y \<longrightarrow> grouped ?s3 x y"
      using merge_grouped [OF rr False] by blast
    ultimately have "coarser ?s2 ?s3" by (simp add: coarser_def)
    with c2 have c3: "coarser s ?s3" by (rule coarser_trans)
    have "root_of ?s3 a (winner ?s2 ra rb)" "root_of ?s3 b (winner ?s2 ra rb)"
      using merge_root_of [OF rr False ra] merge_root_of [OF rr False rb] False
      by (auto simp: winner_def loser_def split: if_splits)
    then have "grouped ?s3 a b" by (auto simp: grouped_def)
    with False u c3 show thesis by (intro that [of ?s3]) simp_all
  qed
qed

lemma nodeUnion_Inr_bound:
  assumes "valid s" "nodeUnion s a b = Some (Inr u, s')"
  shows "a < length s \<and> b < length s"
proof (rule ccontr)
  assume n: "\<not> (a < length s \<and> b < length s)"
  show False
  proof (cases "a < length s")
    case False
    then have "find_node s a = Some (Inl InvalidDereference, s)" by (simp add: find_node_fault)
    with assms(2) show False by (simp add: nodeUnion_def)
  next
    case True
    with n have b: "length s \<le> b" by simp
    from assms(1) True obtain p ra where
      fa: "find_node s a = Some (Inr ra, compress s p ra)" by (rule find_node_valid)
    from b have "find_node (compress s p ra) b = Some (Inl InvalidDereference, compress s p ra)"
      by (simp add: find_node_fault)
    with fa assms(2) show False by (simp add: nodeUnion_def)
  qed
qed

lemma nodeUnion_coarser:
  assumes "valid s" "nodeUnion s a b = Some (Inr u, s')"
  shows "coarser s s' \<and> grouped s' a b"
proof -
  from assms have "a < length s" "b < length s" using nodeUnion_Inr_bound by blast+
  with assms(1) obtain t where "nodeUnion s a b = Some (Inr (), t)" "coarser s t" "grouped t a b"
    by (rule nodeUnion_valid)
  with assms(2) show ?thesis by simp
qed

lemma grouped_roots: "root_of s a ra \<Longrightarrow> root_of s b rb \<Longrightarrow> grouped s a b \<longleftrightarrow> ra = rb"
  unfolding grouped_def using root_of_det by blast

lemma query_valid:
  assumes v: "valid s" and a: "a < length s" and b: "b < length s"
  obtains s' where "query s a b = Some (Inr (grouped s a b), s')" "coarser s s'"
    "root_of s' = root_of s"
proof -
  from v a obtain p ra where wa: "walk (parents s) a p ra"
    and fa: "find_node s a = Some (Inr ra, compress s p ra)"
    and v1: "valid (compress s p ra)" and e1: "root_of (compress s p ra) = root_of s"
    by (rule find_node_valid)
  let ?s1 = "compress s p ra"
  from b have "b < length ?s1" by simp
  with v1 obtain q rb where wb: "walk (parents ?s1) b q rb"
    and fb: "find_node ?s1 b = Some (Inr rb, compress ?s1 q rb)"
    and v2: "valid (compress ?s1 q rb)" and e2: "root_of (compress ?s1 q rb) = root_of ?s1"
    by (rule find_node_valid)
  let ?s2 = "compress ?s1 q rb"
  from e1 e2 have e: "root_of ?s2 = root_of s" by simp
  then have "grouped ?s2 = grouped s" by (rule grouped_cong)
  with v2 have c2: "coarser s ?s2" by (simp add: coarser_def)
  from wa have ra: "root_of s a ra" by (auto simp: root_of_def)
  from wb have "root_of ?s1 b rb" by (auto simp: root_of_def)
  with e1 have rb: "root_of s b rb" by simp
  from fa fb have "query s a b = Some (Inr (ra = rb), ?s2)" by (simp add: query_def)
  with grouped_roots [OF ra rb] c2 e show thesis by (intro that [of ?s2]) simp_all
qed

lemma query_Inr_bound:
  assumes "valid s" "query s a b = Some (Inr u, s')"
  shows "a < length s \<and> b < length s"
proof (rule ccontr)
  assume n: "\<not> (a < length s \<and> b < length s)"
  show False
  proof (cases "a < length s")
    case False
    then have "find_node s a = Some (Inl InvalidDereference, s)" by (simp add: find_node_fault)
    with assms(2) show False by (simp add: query_def)
  next
    case True
    with n have b: "length s \<le> b" by simp
    from assms(1) True obtain p ra where
      fa: "find_node s a = Some (Inr ra, compress s p ra)" by (rule find_node_valid)
    from b have "find_node (compress s p ra) b = Some (Inl InvalidDereference, compress s p ra)"
      by (simp add: find_node_fault)
    with fa assms(2) show False by (simp add: query_def)
  qed
qed

lemma query_coarser:
  assumes "valid s" "query s a b = Some (Inr u, s')"
  shows "coarser s s' \<and> root_of s' = root_of s \<and> u = grouped s a b"
proof -
  from assms have "a < length s" "b < length s" using query_Inr_bound by blast+
  with assms(1) obtain t where "query s a b = Some (Inr (grouped s a b), t)" "coarser s t"
    "root_of t = root_of s"
    by (rule query_valid)
  with assms(2) show ?thesis by simp
qed

subsection \<open>Sequences of calls\<close>

lemma do_call_coarser:
  assumes "valid s" "do_call s c = Some (Inr u, s')"
  shows "coarser s s'"
proof (cases c)
  case (Find x)
  with assms(2) obtain r where "find_node s x = Some (Inr r, s')"
    by (cases "find_node s x") (auto simp: map_sum_def split: sum.splits)
  with assms(1) show ?thesis using find_node_coarser by blast
next
  case (NodeUnion a b)
  with assms show ?thesis using nodeUnion_coarser by simp
next
  case (Query a b)
  with assms(2) obtain r where "query s a b = Some (Inr r, s')"
    by (cases "query s a b") (auto simp: map_sum_def split: sum.splits)
  with assms(1) show ?thesis using query_coarser by blast
qed

lemma do_call_valid:
  assumes "valid s" "in_range (length s) c"
  shows "\<exists>s'. do_call s c = Some (Inr (), s')"
proof (cases c)
  case (Find x)
  with assms obtain p r where "find_node s x = Some (Inr r, compress s p r)"
    by (auto elim: find_node_valid)
  with Find show ?thesis by simp
next
  case (NodeUnion a b)
  with assms obtain s' where "nodeUnion s a b = Some (Inr (), s')"
    by (auto elim: nodeUnion_valid)
  with NodeUnion show ?thesis by simp
next
  case (Query a b)
  with assms obtain s' where "query s a b = Some (Inr (grouped s a b), s')"
    by (auto elim: query_valid)
  with Query show ?thesis by simp
qed

lemma run_coarser: "valid s \<Longrightarrow> run s cs = Some (Inr u, s') \<Longrightarrow> coarser s s'"
proof (induction cs arbitrary: s)
  case Nil
  then show ?case by (simp add: coarser_refl)
next
  case (Cons c cs)
  from Cons.prems(2) obtain t where c: "do_call s c = Some (Inr (), t)"
    and r: "run t cs = Some (Inr u, s')"
    by (cases "do_call s c") (auto split: sum.splits)
  from Cons.prems(1) c have st: "coarser s t" by (rule do_call_coarser)
  then have "valid t" by (simp add: coarser_def)
  then have "coarser t s'" using r by (rule Cons.IH)
  with st show ?case by (rule coarser_trans)
qed

lemma run_valid:
  "valid s \<Longrightarrow> \<forall>c\<in>set cs. in_range (length s) c \<Longrightarrow> \<exists>s'. run s cs = Some (Inr (), s')"
proof (induction cs arbitrary: s)
  case Nil
  then show ?case by simp
next
  case (Cons c cs)
  from Cons.prems obtain t where c: "do_call s c = Some (Inr (), t)"
    using do_call_valid [of s c] by auto
  with Cons.prems(1) have "coarser s t" by (rule do_call_coarser)
  then have "valid t" "length t = length s" by (simp_all add: coarser_def)
  with Cons.prems(2) have "\<exists>s'. run t cs = Some (Inr (), s')" by (intro Cons.IH) simp_all
  with c show ?case by simp
qed

lemma unions_run: "unions s us = run s (map (\<lambda>(a, b). NodeUnion a b) us)"
proof (induction us arbitrary: s)
  case Nil
  then show ?case by simp
next
  case (Cons ab us)
  obtain a b where ab: "ab = (a, b)" by (cases ab)
  show ?case
  proof (cases "nodeUnion s a b")
    case None
    with ab show ?thesis by simp
  next
    case (Some rs)
    obtain r t where "rs = (r, t)" by (cases rs)
    with Some ab Cons.IH [of t] show ?thesis by (cases r) simp_all
  qed
qed

section \<open>Acyclicity\<close>

lemma funpow_fixed: "f x = x \<Longrightarrow> (f ^^ n) x = x"
  by (induction n) simp_all

lemma walk_funpow_gen:
  "walk l x p r \<Longrightarrow> (\<And>y. y < length l \<Longrightarrow> f y = l ! y) \<Longrightarrow> (f ^^ length p) x = r"
proof (induction rule: walk.induct)
  case (at_root x)
  then show ?case by simp
next
  case (up x p r)
  have "(f ^^ length (x # p)) x = (f ^^ length p) (f x)"
    by (simp add: funpow_swap1)
  with up show ?case by simp
qed

lemma walk_funpow:
  assumes "walk (parents s) x p r"
  shows "((\<lambda>y. parent (s ! y)) ^^ length p) x = r"
  using assms
proof (rule walk_funpow_gen)
  fix y
  assume "y < length (parents s)"
  then show "parent (s ! y) = parents s ! y" by simp
qed

lemma funpow_cycle:
  assumes "(f ^^ k) x = x"
  shows "(f ^^ (k * j)) x = x"
proof -
  have "(f ^^ (k * j)) x = ((f ^^ k) ^^ j) x" by (simp add: funpow_mult mult.commute)
  also have "\<dots> = x" using assms by (rule funpow_fixed)
  finally show ?thesis .
qed

lemma valid_no_cycle:
  assumes v: "valid s" and x: "x < length s" and k: "0 < k"
    and c: "((\<lambda>y. parent (s ! y)) ^^ k) x = x"
  shows "parent (s ! x) = x"
proof -
  let ?f = "\<lambda>y. parent (s ! y)"
  from v x obtain p r where w: "walk (parents s) x p r" by (auto simp: valid_def root_of_def)
  let ?j = "length p"
  from w have j: "(?f ^^ ?j) x = r" by (rule walk_funpow)
  from w have r: "?f r = r" using root_of_bounds [of s x r] by (auto simp: root_of_def)
  from k have "k * ?j = (k * ?j - ?j) + ?j" by (cases k) simp_all
  then have "(?f ^^ (k * ?j)) x = (?f ^^ (k * ?j - ?j)) ((?f ^^ ?j) x)"
    by (metis funpow_add o_apply)
  also have "\<dots> = r" using j r by (simp add: funpow_fixed)
  finally have "x = r" using funpow_cycle [OF c, of ?j] by simp
  with r show ?thesis by simp
qed

text \<open>
  C9. In every state reached from the initial forest by calls of \<open>find\<close>, \<open>nodeUnion\<close>
  and \<open>query\<close> that return, following the parent links from any entity reaches after
  finitely many steps an entity that is its own parent, and the only cycles of parent
  links are these self-loops. Every sequence of calls on entities of the forest does
  return.
\<close>

theorem C9_forest_acyclic:
  "(\<forall>s. run (make ms) cs = Some (Inr (), s) \<longrightarrow>
      length s = length ms \<and>
      (\<forall>x<length s. \<exists>k r. ((\<lambda>y. parent (s ! y)) ^^ k) x = r \<and> r < length s \<and> parent (s ! r) = r) \<and>
      (\<forall>x<length s. \<forall>k>0. ((\<lambda>y. parent (s ! y)) ^^ k) x = x \<longrightarrow> parent (s ! x) = x)) \<and>
   ((\<forall>c\<in>set cs. in_range (length ms) c) \<longrightarrow> (\<exists>s. run (make ms) cs = Some (Inr (), s)))"
proof (intro conjI allI impI)
  fix s
  assume "run (make ms) cs = Some (Inr (), s)"
  with make_valid have c: "coarser (make ms) s" by (rule run_coarser)
  then show "length s = length ms" by (simp add: coarser_def)
  from c have v: "valid s" by (simp add: coarser_def)
  show "\<exists>k r. ((\<lambda>y. parent (s ! y)) ^^ k) x = r \<and> r < length s \<and> parent (s ! r) = r"
    if "x < length s" for x
  proof -
    from v that obtain p r where w: "walk (parents s) x p r"
      by (auto simp: valid_def root_of_def)
    from w have "root_of s x r" by (auto simp: root_of_def)
    with walk_funpow [OF w] root_of_bounds [of s x r] show ?thesis by auto
  qed
  show "parent (s ! x) = x" if "x < length s" "0 < k" "((\<lambda>y. parent (s ! y)) ^^ k) x = x" for x k
    using v that by (rule valid_no_cycle)
next
  assume "\<forall>c\<in>set cs. in_range (length ms) c"
  then show "\<exists>s. run (make ms) cs = Some (Inr (), s)"
    using run_valid [of "make ms" cs] make_valid by simp
qed

theorem C9_forest_acyclic_witness:
  "\<exists>s. run (make [1, 2, 3, 4]) [NodeUnion 0 1, NodeUnion 2 3, NodeUnion 0 2, Find 3] = Some (Inr (), s) \<and>
       s = [\<lparr>parent = 0, rank = 2, money = 1\<rparr>, \<lparr>parent = 0, rank = 0, money = 2\<rparr>,
            \<lparr>parent = 0, rank = 1, money = 3\<rparr>, \<lparr>parent = 0, rank = 0, money = 4\<rparr>] \<and>
       length s = 4 \<and>
       (\<exists>k r. ((\<lambda>y. parent (s ! y)) ^^ k) 3 = r \<and> r < length s \<and> parent (s ! r) = r)"
proof -
  let ?ms = "[1, 2, 3, 4] :: cint list"
  let ?cs = "[NodeUnion 0 1, NodeUnion 2 3, NodeUnion 0 2, Find 3]"
  let ?s = "[\<lparr>parent = 0, rank = 2, money = 1\<rparr>, \<lparr>parent = 0, rank = 0, money = 2\<rparr>,
            \<lparr>parent = 0, rank = 1, money = 3\<rparr>, \<lparr>parent = 0, rank = 0, money = 4\<rparr>] :: forest"
  have r: "run (make ?ms) ?cs = Some (Inr (), ?s)" by code_simp
  from C9_forest_acyclic [of ?ms ?cs] r
  have "length ?s = length ?ms"
    and "\<forall>x<length ?s. \<exists>k r. ((\<lambda>y. parent (?s ! y)) ^^ k) x = r \<and> r < length ?s \<and> parent (?s ! r) = r"
    by blast+
  then have "\<exists>k r. ((\<lambda>y. parent (?s ! y)) ^^ k) 3 = r \<and> r < length ?s \<and> parent (?s ! r) = r"
    by simp
  with r show ?thesis by simp
qed

section \<open>Find\<close>

lemma run_finds:
  "valid s \<Longrightarrow> run s (map Find xs) = Some (Inr u, s') \<Longrightarrow> valid s' \<and> root_of s' = root_of s"
proof (induction xs arbitrary: s)
  case Nil
  then show ?case by simp
next
  case (Cons x xs)
  from Cons.prems(2) obtain r t where f: "find_node s x = Some (Inr r, t)"
    and r: "run t (map Find xs) = Some (Inr u, s')"
    by (cases "find_node s x") (auto simp: map_sum_def split: sum.splits)
  from find_node_coarser [OF Cons.prems(1) f] have t: "valid t" "root_of t = root_of s"
    by (simp_all add: coarser_def)
  from Cons.IH [OF t(1) r] t(2) show ?case by simp
qed

text \<open>
  C2. On an entity \<open>i\<close> of a valid forest, \<open>find\<close> returns the root \<open>r\<close> that the parent
  links lead to from \<open>i\<close>. The store it leaves differs from the one it was given only in
  the parent links of the entities \<open>p\<close> passed on the way, which now are \<open>r\<close>, so that
  every entity visited (the root included) points at \<open>r\<close>. No entity changes its root or
  its group, by this call or by any sequence of calls of \<open>find\<close>, and every such sequence
  on entities of the forest returns.
\<close>

theorem C2_find_compresses:
  assumes "valid s" and "i < length s"
  shows "\<exists>p r s'. find_node s i = Some (Inr r, s') \<and> walk (parents s) i p r \<and>
           root_of s i r \<and> parent (s ! r) = r \<and>
           length s' = length s \<and>
           (\<forall>j<length s. s' ! j = (if j \<in> set p then (s ! j)\<lparr>parent := r\<rparr> else s ! j)) \<and>
           (\<forall>j\<in>set (p @ [r]). parent (s' ! j) = r) \<and>
           root_of s' = root_of s \<and> grouped s' = grouped s \<and>
           (\<forall>xs t. run s (map Find xs) = Some (Inr (), t) \<longrightarrow>
                   root_of t = root_of s \<and> grouped t = grouped s) \<and>
           (\<forall>xs. (\<forall>x\<in>set xs. x < length s) \<longrightarrow> (\<exists>t. run s (map Find xs) = Some (Inr (), t)))"
proof -
  from assms obtain p r where w: "walk (parents s) i p r"
    and f: "find_node s i = Some (Inr r, compress s p r)"
    and e: "root_of (compress s p r) = root_of s"
    by (rule find_node_valid)
  let ?s' = "compress s p r"
  from w have ro: "root_of s i r" by (auto simp: root_of_def)
  then have rb: "r < length s" "parent (s ! r) = r" using root_of_bounds by blast+
  have nth: "\<forall>j<length s. ?s' ! j = (if j \<in> set p then (s ! j)\<lparr>parent := r\<rparr> else s ! j)"
    by (simp add: compress_nth)
  have pts: "\<forall>j\<in>set (p @ [r]). parent (?s' ! j) = r"
  proof
    fix j
    assume j: "j \<in> set (p @ [r])"
    then have "j < length s" using walk_path [OF w, of j] rb by auto
    with j rb show "parent (?s' ! j) = r" by (auto simp: compress_nth)
  qed
  have seq: "root_of t = root_of s \<and> grouped t = grouped s"
    if "run s (map Find xs) = Some (Inr (), t)" for xs t
    using run_finds [OF assms(1) that] grouped_cong by blast
  have tot: "\<exists>t. run s (map Find xs) = Some (Inr (), t)" if "\<forall>x\<in>set xs. x < length s" for xs
    using run_valid [OF assms(1), of "map Find xs"] that by simp
  from f w ro rb nth pts e grouped_cong [OF e] seq tot show ?thesis
    by (intro exI [of _ p] exI [of _ r] exI [of _ ?s']) simp
qed

lemma run_reaches_valid: "run (make ms) cs = Some (Inr (), s) \<Longrightarrow> valid s"
  using run_coarser [OF make_valid] by (auto simp: coarser_def)

lemma chain4_reached:
  "run (make [1, 2, 3, 4]) [NodeUnion 0 1, NodeUnion 2 3, NodeUnion 0 2] = Some (Inr (), chain4)"
  by code_simp

lemma chain4_valid: "valid chain4"
  using chain4_reached by (rule run_reaches_valid)

theorem C2_find_compresses_witness:
  "valid chain4 \<and> 3 < length chain4 \<and>
   find_node chain4 3 = Some (Inr 0, chain4[3 := \<lparr>parent = 0, rank = 0, money = 4\<rparr>]) \<and>
   walk (parents chain4) 3 [3, 2] 0 \<and>
   grouped (chain4[3 := \<lparr>parent = 0, rank = 0, money = 4\<rparr>]) = grouped chain4"
proof -
  let ?t = "chain4[3 := \<lparr>parent = 0, rank = 0, money = 4\<rparr>]"
  have l: "3 < length chain4" by (simp add: chain4_def)
  have f: "find_node chain4 3 = Some (Inr 0, ?t)" by code_simp
  from C2_find_compresses [OF chain4_valid l] f
  obtain p where "walk (parents chain4) 3 p 0" "grouped ?t = grouped chain4" by auto
  moreover have "walk (parents chain4) 3 [3, 2] 0"
    using walk.up [of 3 "parents chain4" "[2]" 0] walk.up [of 2 "parents chain4" "[]" 0]
      walk.at_root [of 0 "parents chain4"]
    by (simp add: chain4_def parents_def)
  ultimately show ?thesis using chain4_valid l f by simp
qed

section \<open>Coarsening\<close>

text \<open>
  C7. Let \<open>s\<close> be reached from the initial forest, and let \<open>query\<close> answer there that \<open>a\<close>
  and \<open>b\<close> are in one group, leaving the store \<open>t\<close>. After any further sequence of calls
  of \<open>find\<close>, \<open>nodeUnion\<close> and \<open>query\<close> that returns, \<open>query\<close> on \<open>a\<close> and \<open>b\<close> returns,
  with the same answer.
\<close>

theorem C7_groups_only_coarsen:
  assumes "run (make ms) cs = Some (Inr (), s)"
    and "query s a b = Some (Inr True, t)"
    and "run t cs' = Some (Inr (), s')"
  shows "\<exists>t'. query s' a b = Some (Inr True, t')"
proof -
  from assms(1) have v: "valid s" by (rule run_reaches_valid)
  from query_Inr_bound [OF v assms(2)] have ab: "a < length s" "b < length s" by simp_all
  from query_coarser [OF v assms(2)] have st: "coarser s t" and g: "grouped s a b" by simp_all
  from st have vt: "valid t" by (simp add: coarser_def)
  from run_coarser [OF vt assms(3)] have ts: "coarser t s'" .
  with st have ss: "coarser s s'" by (rule coarser_trans)
  with g have g': "grouped s' a b" by (simp add: coarser_def)
  from ss ab have "valid s'" "a < length s'" "b < length s'" by (simp_all add: coarser_def)
  then obtain t' where "query s' a b = Some (Inr (grouped s' a b), t')" by (rule query_valid)
  with g' show ?thesis by simp
qed

theorem C7_groups_only_coarsen_witness:
  "run (make [1, 2, 3, 4]) [NodeUnion 0 1, NodeUnion 2 3, NodeUnion 0 2] = Some (Inr (), chain4) \<and>
   query chain4 3 1 = Some (Inr True, chain4[3 := \<lparr>parent = 0, rank = 0, money = 4\<rparr>]) \<and>
   run (chain4[3 := \<lparr>parent = 0, rank = 0, money = 4\<rparr>]) [NodeUnion 1 2, Find 1, Query 0 3] =
     Some (Inr (), chain4[3 := \<lparr>parent = 0, rank = 0, money = 4\<rparr>]) \<and>
   (\<exists>t'. query (chain4[3 := \<lparr>parent = 0, rank = 0, money = 4\<rparr>]) 3 1 = Some (Inr True, t'))"
proof -
  let ?t = "chain4[3 := \<lparr>parent = 0, rank = 0, money = 4\<rparr>]"
  have q: "query chain4 3 1 = Some (Inr True, ?t)" by code_simp
  have r: "run ?t [NodeUnion 1 2, Find 1, Query 0 3] = Some (Inr (), ?t)" by code_simp
  from C7_groups_only_coarsen [OF chain4_reached q r] chain4_reached q r show ?thesis by simp
qed

section \<open>Union\<close>

lemma find_node_root: "root_of s x r \<Longrightarrow> \<exists>s'. find_node s x = Some (Inr r, s')"
  unfolding root_of_def using find_node_walk by blast

lemma nodeUnion_effect:
  assumes v: "valid s" and a: "a < length s" and b: "b < length s"
  obtains p q q0 ra rb where
    "walk (parents s) a p ra" "walk (parents s) b q0 rb"
    "walk (parents (compress s p ra)) b q rb" "set q \<subseteq> set q0"
    "find_node s a = Some (Inr ra, compress s p ra)"
    "find_node (compress s p ra) b = Some (Inr rb, compress (compress s p ra) q rb)"
    "valid (compress (compress s p ra) q rb)"
    "root_of (compress (compress s p ra) q rb) = root_of s"
    "nodeUnion s a b = Some (Inr (), if ra = rb then compress (compress s p ra) q rb
                                    else merge (compress (compress s p ra) q rb) ra rb)"
proof -
  from v a obtain p ra where wa: "walk (parents s) a p ra"
    and fa: "find_node s a = Some (Inr ra, compress s p ra)"
    and v1: "valid (compress s p ra)" and e1: "root_of (compress s p ra) = root_of s"
    by (rule find_node_valid)
  let ?s1 = "compress s p ra"
  from v b obtain q0 rb where wb0: "walk (parents s) b q0 rb"
    by (auto simp: valid_def root_of_def)
  have "\<exists>q. walk (parents ?s1) b q rb \<and> set q \<subseteq> set q0"
    by (rule walk_compress [OF wa wb0]) (simp_all add: parents_compress)
  then obtain q where wb: "walk (parents ?s1) b q rb" and sub: "set q \<subseteq> set q0" by blast
  let ?s2 = "compress ?s1 q rb"
  have fb: "find_node ?s1 b = Some (Inr rb, ?s2)" using wb by (rule find_node_walk)
  have v2: "valid ?s2" using wb v1 by (rule compress_valid)
  have "root_of ?s2 = root_of ?s1" using wb v1 by (rule compress_root_of_eq)
  with e1 have e: "root_of ?s2 = root_of s" by simp
  show thesis
    by (rule that [OF wa wb0 wb sub fa fb v2 e nodeUnion_finds [OF fa fb]])
qed

text \<open>
  C6. On two entities of a valid forest, \<open>nodeUnion\<close> returns, and so does a second call
  on the store the first one leaves; \<open>find\<close> on \<open>a\<close> and on \<open>b\<close> returns the same
  representative after the second call as after the first, the one that \<open>a\<close> and \<open>b\<close>
  share.
\<close>

theorem C6_union_idempotent:
  assumes "valid s" and "a < length s" and "b < length s"
  shows "\<exists>s1 s2 ra rb ta tb ta' tb'.
           nodeUnion s a b = Some (Inr (), s1) \<and> nodeUnion s1 a b = Some (Inr (), s2) \<and>
           find_node s1 a = Some (Inr ra, ta) \<and> find_node s1 b = Some (Inr rb, tb) \<and>
           find_node s2 a = Some (Inr ra, ta') \<and> find_node s2 b = Some (Inr rb, tb') \<and>
           ra = rb"
proof -
  from assms obtain s1 where u1: "nodeUnion s a b = Some (Inr (), s1)"
    and c: "coarser s s1" and g: "grouped s1 a b"
    by (rule nodeUnion_valid)
  from c assms have v1: "valid s1" and ab: "a < length s1" "b < length s1"
    by (simp_all add: coarser_def)
  from v1 ab obtain p q q0 ra rb where wa: "walk (parents s1) a p ra"
    and wb: "walk (parents s1) b q0 rb"
    and e: "root_of (compress (compress s1 p ra) q rb) = root_of s1"
    and u2: "nodeUnion s1 a b = Some (Inr (), if ra = rb then compress (compress s1 p ra) q rb
                                    else merge (compress (compress s1 p ra) q rb) ra rb)"
    by (rule nodeUnion_effect)
  let ?s2 = "compress (compress s1 p ra) q rb"
  from wa wb have r1: "root_of s1 a ra" "root_of s1 b rb" by (auto simp: root_of_def)
  with g have rr: "ra = rb" by (simp add: grouped_roots)
  with u2 have u2': "nodeUnion s1 a b = Some (Inr (), ?s2)" by simp
  from r1 e have r2: "root_of ?s2 a ra" "root_of ?s2 b rb" by simp_all
  from r1 r2 u1 u2' rr show ?thesis using find_node_root by metis
qed

theorem C6_union_idempotent_witness:
  "valid (make [1, - 1]) \<and> 0 < length (make [1, - 1]) \<and> 1 < length (make [1, - 1]) \<and>
   nodeUnion (make [1, - 1]) 0 1 =
     Some (Inr (), [\<lparr>parent = 0, rank = 1, money = 1\<rparr>, \<lparr>parent = 0, rank = 0, money = - 1\<rparr>]) \<and>
   nodeUnion [\<lparr>parent = 0, rank = 1, money = 1\<rparr>, \<lparr>parent = 0, rank = 0, money = - 1\<rparr>] 0 1 =
     Some (Inr (), [\<lparr>parent = 0, rank = 1, money = 1\<rparr>, \<lparr>parent = 0, rank = 0, money = - 1\<rparr>]) \<and>
   (\<exists>t. find_node [\<lparr>parent = 0, rank = 1, money = 1\<rparr>, \<lparr>parent = 0, rank = 0, money = - 1\<rparr>] 1 =
          Some (Inr 0, t))"
proof -
  let ?s = "make [1, - 1]"
  let ?s1 = "[\<lparr>parent = 0, rank = 1, money = 1\<rparr>, \<lparr>parent = 0, rank = 0, money = - 1\<rparr>] :: forest"
  have l: "0 < length ?s" "1 < length ?s" by simp_all
  have u1: "nodeUnion ?s 0 1 = Some (Inr (), ?s1)" by code_simp
  have u2: "nodeUnion ?s1 0 1 = Some (Inr (), ?s1)" by code_simp
  have f: "find_node ?s1 0 = Some (Inr 0, ?s1)" by code_simp
  from C6_union_idempotent [OF make_valid l] u1 u2 f
  have "\<exists>t. find_node ?s1 1 = Some (Inr 0, t)" by auto
  with make_valid l u1 u2 show ?thesis by simp
qed

subsection \<open>The merge step, case by case\<close>

lemma map_rank_attach [simp]: "map rank (attach s lo hi) = map rank s"
  by (simp add: attach_def map_update map_update_same)

lemma merge_cases:
  assumes "ra \<noteq> rb" "ra < length s" "rb < length s"
  shows "merge s ra rb =
    (if sint (rank (s ! ra)) < sint (rank (s ! rb)) then s[ra := (s ! ra)\<lparr>parent := rb\<rparr>]
     else if sint (rank (s ! rb)) < sint (rank (s ! ra)) then s[rb := (s ! rb)\<lparr>parent := ra\<rparr>]
     else s[rb := (s ! rb)\<lparr>parent := ra\<rparr>, ra := (s ! ra)\<lparr>rank := rank (s ! ra) + 1\<rparr>])"
proof -
  have req: "rank (s ! ra) = rank (s ! rb) \<longleftrightarrow> sint (rank (s ! ra)) = sint (rank (s ! rb))"
    by (rule word_eq_iff_signed)
  consider (lt) "sint (rank (s ! ra)) < sint (rank (s ! rb))"
    | (gt) "sint (rank (s ! rb)) < sint (rank (s ! ra))"
    | (eq) "sint (rank (s ! ra)) = sint (rank (s ! rb))"
    by linarith
  then show ?thesis
  proof cases
    case lt
    with assms req show ?thesis by (simp add: merge_def winner_def loser_def attach_def bump_def)
  next
    case gt
    with assms req show ?thesis by (simp add: merge_def winner_def loser_def attach_def bump_def)
  next
    case eq
    with req have "rank (s ! ra) = rank (s ! rb)" by simp
    with eq assms show ?thesis
      by (simp add: merge_def winner_def loser_def attach_def bump_def)
  qed
qed

lemma rank_nth: "map rank t = map rank s \<Longrightarrow> j < length s \<Longrightarrow> rank (t ! j) = rank (s ! j)"
  by (metis length_map nth_map)

text \<open>
  C3 (as amended). On two entities of a valid forest \<open>nodeUnion\<close> first runs \<open>find\<close> on
  \<open>a\<close>, then on \<open>b\<close>; both compress their paths and change no rank, no value and no
  root. When the two roots are equal, the store these two calls leave is the result:
  nothing but that compression has changed. Otherwise the root of lower rank (ranks read
  as signed) gets the other root as its parent, and on equal ranks the root of \<open>b\<close> gets
  the root of \<open>a\<close> as its parent and the rank of the root of \<open>a\<close> grows by exactly one;
  nothing else is changed in the store the two calls of \<open>find\<close> leave.
\<close>

theorem C3_union_by_rank:
  assumes "valid s" and "a < length s" and "b < length s"
  shows "\<exists>ra rb s1 s2.
           find_node s a = Some (Inr ra, s1) \<and> find_node s1 b = Some (Inr rb, s2) \<and>
           root_of s a ra \<and> root_of s b rb \<and>
           map rank s2 = map rank s \<and> map money s2 = map money s \<and> root_of s2 = root_of s \<and>
           nodeUnion s a b = Some (Inr (),
             if ra = rb then s2
             else if sint (rank (s ! ra)) < sint (rank (s ! rb))
               then s2[ra := (s2 ! ra)\<lparr>parent := rb\<rparr>]
             else if sint (rank (s ! rb)) < sint (rank (s ! ra))
               then s2[rb := (s2 ! rb)\<lparr>parent := ra\<rparr>]
             else s2[rb := (s2 ! rb)\<lparr>parent := ra\<rparr>,
                     ra := (s2 ! ra)\<lparr>rank := rank (s ! ra) + 1\<rparr>])"
proof -
  from assms obtain p q q0 ra rb where wa: "walk (parents s) a p ra"
    and wb: "walk (parents s) b q0 rb"
    and fa: "find_node s a = Some (Inr ra, compress s p ra)"
    and fb: "find_node (compress s p ra) b = Some (Inr rb, compress (compress s p ra) q rb)"
    and e: "root_of (compress (compress s p ra) q rb) = root_of s"
    and u: "nodeUnion s a b = Some (Inr (), if ra = rb then compress (compress s p ra) q rb
                                    else merge (compress (compress s p ra) q rb) ra rb)"
    by (rule nodeUnion_effect)
  let ?s2 = "compress (compress s p ra) q rb"
  from wa wb have r: "root_of s a ra" "root_of s b rb" by (auto simp: root_of_def)
  then have b: "ra < length s" "rb < length s" using root_of_bounds by blast+
  have rk: "map rank ?s2 = map rank s" and mo: "map money ?s2 = map money s" by simp_all
  have rr: "rank (?s2 ! ra) = rank (s ! ra)" "rank (?s2 ! rb) = rank (s ! rb)"
    using rank_nth [OF rk b(1)] rank_nth [OF rk b(2)] by blast+
  have U: "nodeUnion s a b = Some (Inr (),
             if ra = rb then ?s2
             else if sint (rank (s ! ra)) < sint (rank (s ! rb))
               then ?s2[ra := (?s2 ! ra)\<lparr>parent := rb\<rparr>]
             else if sint (rank (s ! rb)) < sint (rank (s ! ra))
               then ?s2[rb := (?s2 ! rb)\<lparr>parent := ra\<rparr>]
             else ?s2[rb := (?s2 ! rb)\<lparr>parent := ra\<rparr>,
                     ra := (?s2 ! ra)\<lparr>rank := rank (s ! ra) + 1\<rparr>])"
  proof (cases "ra = rb")
    case True
    with u show ?thesis by simp
  next
    case False
    with b have "merge ?s2 ra rb =
      (if sint (rank (?s2 ! ra)) < sint (rank (?s2 ! rb)) then ?s2[ra := (?s2 ! ra)\<lparr>parent := rb\<rparr>]
       else if sint (rank (?s2 ! rb)) < sint (rank (?s2 ! ra)) then ?s2[rb := (?s2 ! rb)\<lparr>parent := ra\<rparr>]
       else ?s2[rb := (?s2 ! rb)\<lparr>parent := ra\<rparr>, ra := (?s2 ! ra)\<lparr>rank := rank (?s2 ! ra) + 1\<rparr>])"
      by (intro merge_cases) simp_all
    with False u rr show ?thesis by simp
  qed
  show ?thesis
    apply (rule exI [of _ ra], rule exI [of _ rb], rule exI [of _ "compress s p ra"], rule exI [of _ ?s2])
    apply (intro conjI)
    apply (rule fa fb r rk mo e U)+
    done
qed

theorem C3_union_by_rank_witness:
  "valid (make [1, - 1]) \<and> 0 < length (make [1, - 1]) \<and> 1 < length (make [1, - 1]) \<and>
   find_node (make [1, - 1]) 0 = Some (Inr 0, make [1, - 1]) \<and>
   find_node (make [1, - 1]) 1 = Some (Inr 1, make [1, - 1]) \<and>
   nodeUnion (make [1, - 1]) 0 1 =
     Some (Inr (), [\<lparr>parent = 0, rank = 1, money = 1\<rparr>, \<lparr>parent = 0, rank = 0, money = - 1\<rparr>])"
proof -
  let ?s = "make [1, - 1]"
  have l: "0 < length ?s" "1 < length ?s" by simp_all
  have fa: "find_node ?s 0 = Some (Inr 0, ?s)" by code_simp
  have fb: "find_node ?s 1 = Some (Inr 1, ?s)" by code_simp
  have s: "?s = [\<lparr>parent = 0, rank = 0, money = 1\<rparr>, \<lparr>parent = 1, rank = 0, money = - 1\<rparr>]"
    by code_simp
  from C3_union_by_rank [OF make_valid l] fa fb
  have "nodeUnion ?s 0 1 =
    Some (Inr (), ?s[1 := (?s ! 1)\<lparr>parent := 0\<rparr>, 0 := (?s ! 0)\<lparr>rank := rank (?s ! 0) + 1\<rparr>])"
    by (auto simp: make_nth)
  also have "?s[1 := (?s ! 1)\<lparr>parent := 0\<rparr>, 0 := (?s ! 0)\<lparr>rank := rank (?s ! 0) + 1\<rparr>] =
    [\<lparr>parent = 0, rank = 1, money = 1\<rparr>, \<lparr>parent = 0, rank = 0, money = - 1\<rparr>]"
    by (simp add: s)
  finally show ?thesis using make_valid l fa fb by simp
qed

theorem C3_counterexample:
  "run (make [1, 2, 3, 4]) [NodeUnion 0 1, NodeUnion 2 3, NodeUnion 0 2] = Some (Inr (), chain4) \<and>
   find_node chain4 3 = Some (Inr 0, chain4[3 := \<lparr>parent = 0, rank = 0, money = 4\<rparr>]) \<and>
   find_node (chain4[3 := \<lparr>parent = 0, rank = 0, money = 4\<rparr>]) 0 =
     Some (Inr 0, chain4[3 := \<lparr>parent = 0, rank = 0, money = 4\<rparr>]) \<and>
   nodeUnion chain4 3 0 = Some (Inr (), chain4[3 := \<lparr>parent = 0, rank = 0, money = 4\<rparr>]) \<and>
   chain4[3 := \<lparr>parent = 0, rank = 0, money = 4\<rparr>] \<noteq> chain4 \<and>
   parent (chain4 ! 3) = 2 \<and>
   parent (chain4[3 := \<lparr>parent = 0, rank = 0, money = 4\<rparr>] ! 3) = 0"
proof -
  let ?t = "chain4[3 := \<lparr>parent = 0, rank = 0, money = 4\<rparr>]"
  have "find_node chain4 3 = Some (Inr 0, ?t)" by code_simp
  moreover have "find_node ?t 0 = Some (Inr 0, ?t)" by code_simp
  moreover have "nodeUnion chain4 3 0 = Some (Inr (), ?t)" by code_simp
  moreover have p: "parent (chain4 ! 3) = 2" "parent (?t ! 3) = 0" by (simp_all add: chain4_def)
  moreover from p have "?t \<noteq> chain4" by auto
  ultimately show ?thesis using chain4_reached by simp
qed

section \<open>What the calls leave untouched\<close>

lemma merge_nth:
  assumes "ra \<noteq> rb" "ra < length s" "rb < length s" "j < length s"
  shows "money (merge s ra rb ! j) = money (s ! j)"
    and "j \<noteq> (if sint (rank (s ! ra)) < sint (rank (s ! rb)) then ra else rb) \<Longrightarrow>
           parent (merge s ra rb ! j) = parent (s ! j)"
    and "rank (merge s ra rb ! j) =
           (if j = ra \<and> rank (s ! ra) = rank (s ! rb) then rank (s ! ra) + 1 else rank (s ! j))"
proof -
  have req: "rank (s ! ra) = rank (s ! rb) \<longleftrightarrow> sint (rank (s ! ra)) = sint (rank (s ! rb))"
    by (rule word_eq_iff_signed)
  note m = merge_cases [OF assms(1-3)]
  show "money (merge s ra rb ! j) = money (s ! j)"
    using assms by (simp add: m nth_list_update)
  show "parent (merge s ra rb ! j) = parent (s ! j)"
    if "j \<noteq> (if sint (rank (s ! ra)) < sint (rank (s ! rb)) then ra else rb)"
    using assms that by (auto simp: m nth_list_update split: if_splits)
  show "rank (merge s ra rb ! j) =
           (if j = ra \<and> rank (s ! ra) = rank (s ! rb) then rank (s ! ra) + 1 else rank (s ! j))"
    using assms req by (auto simp: m nth_list_update)
qed

lemma compress_frame:
  assumes "j < length s"
  shows "money (compress s p r ! j) = money (s ! j)"
    and "rank (compress s p r ! j) = rank (s ! j)"
    and "parent (compress s p r ! j) \<noteq> parent (s ! j) \<Longrightarrow> j \<in> set p"
  using assms by (auto simp: compress_nth split: if_splits)

text \<open>
  C10 (as amended). No call changes the value of an entity. On an entity of a valid
  forest \<open>find\<close> changes no rank and only the parent links of entities on the path from
  its argument to the root. \<open>nodeUnion\<close> changes, besides parent links on the paths from
  \<open>a\<close> and from \<open>b\<close> to their roots (the compression of its two calls of \<open>find\<close>), only
  the parent link of the root it hangs under the other one and, when the two ranks are
  equal, the rank of the root of \<open>a\<close>, which grows by one.
\<close>

theorem C10_frame:
  assumes "valid s" and "a < length s" and "b < length s"
  shows "(\<exists>p r s'. find_node s a = Some (Inr r, s') \<and> walk (parents s) a p r \<and>
            length s' = length s \<and>
            (\<forall>j<length s. money (s' ! j) = money (s ! j) \<and> rank (s' ! j) = rank (s ! j) \<and>
               (parent (s' ! j) \<noteq> parent (s ! j) \<longrightarrow> j \<in> set p))) \<and>
         (\<exists>pa pb ra rb s'. nodeUnion s a b = Some (Inr (), s') \<and>
            walk (parents s) a pa ra \<and> walk (parents s) b pb rb \<and> length s' = length s \<and>
            (\<forall>j<length s. money (s' ! j) = money (s ! j) \<and>
               (parent (s' ! j) \<noteq> parent (s ! j) \<longrightarrow>
                  j \<in> set pa \<union> set pb \<or>
                  ra \<noteq> rb \<and> j = (if sint (rank (s ! ra)) < sint (rank (s ! rb)) then ra else rb)) \<and>
               (rank (s' ! j) \<noteq> rank (s ! j) \<longrightarrow>
                  ra \<noteq> rb \<and> rank (s ! ra) = rank (s ! rb) \<and> j = ra \<and>
                  rank (s' ! j) = rank (s ! j) + 1)))"
proof (rule conjI)
  from assms(1,2) obtain p r where w: "walk (parents s) a p r"
    and f: "find_node s a = Some (Inr r, compress s p r)"
    by (rule find_node_valid)
  have "\<forall>j<length s. money (compress s p r ! j) = money (s ! j) \<and>
          rank (compress s p r ! j) = rank (s ! j) \<and>
          (parent (compress s p r ! j) \<noteq> parent (s ! j) \<longrightarrow> j \<in> set p)"
    using compress_frame by blast
  with f w show "\<exists>p r s'. find_node s a = Some (Inr r, s') \<and> walk (parents s) a p r \<and>
            length s' = length s \<and>
            (\<forall>j<length s. money (s' ! j) = money (s ! j) \<and> rank (s' ! j) = rank (s ! j) \<and>
               (parent (s' ! j) \<noteq> parent (s ! j) \<longrightarrow> j \<in> set p))"
    by (intro exI [of _ p] exI [of _ r] exI [of _ "compress s p r"]) simp
next
  from assms obtain p q q0 ra rb where wa: "walk (parents s) a p ra"
    and wb: "walk (parents s) b q0 rb" and sub: "set q \<subseteq> set q0"
    and u: "nodeUnion s a b = Some (Inr (), if ra = rb then compress (compress s p ra) q rb
                                    else merge (compress (compress s p ra) q rb) ra rb)"
    by (rule nodeUnion_effect)
  let ?s1 = "compress s p ra"
  let ?s2 = "compress ?s1 q rb"
  let ?lo = "if sint (rank (s ! ra)) < sint (rank (s ! rb)) then ra else rb"
  let ?s' = "if ra = rb then ?s2 else merge ?s2 ra rb"
  from wa wb have b: "ra < length s" "rb < length s" using walk_bounds by fastforce+
  have m2: "money (?s2 ! j) = money (s ! j)" and r2: "rank (?s2 ! j) = rank (s ! j)"
    and p2: "parent (?s2 ! j) \<noteq> parent (s ! j) \<Longrightarrow> j \<in> set p \<union> set q0"
    if "j < length s" for j
  proof -
    from that show "money (?s2 ! j) = money (s ! j)" "rank (?s2 ! j) = rank (s ! j)"
      by (simp_all add: compress_frame)
    assume "parent (?s2 ! j) \<noteq> parent (s ! j)"
    then have "parent (?s2 ! j) \<noteq> parent (?s1 ! j) \<or> parent (?s1 ! j) \<noteq> parent (s ! j)" by auto
    with that have "j \<in> set q \<or> j \<in> set p"
      using compress_frame(3) [of j ?s1 q rb] compress_frame(3) [of j s p ra] by auto
    with sub show "j \<in> set p \<union> set q0" by auto
  qed
  have fr: "money (?s' ! j) = money (s ! j) \<and>
      (parent (?s' ! j) \<noteq> parent (s ! j) \<longrightarrow> j \<in> set p \<union> set q0 \<or> ra \<noteq> rb \<and> j = ?lo) \<and>
      (rank (?s' ! j) \<noteq> rank (s ! j) \<longrightarrow>
         ra \<noteq> rb \<and> rank (s ! ra) = rank (s ! rb) \<and> j = ra \<and> rank (?s' ! j) = rank (s ! j) + 1)"
    if j: "j < length s" for j
  proof (cases "ra = rb")
    case True
    with m2 [OF j] r2 [OF j] p2 [OF j] show ?thesis by auto
  next
    case False
    from b j have l: "ra < length ?s2" "rb < length ?s2" "j < length ?s2" by simp_all
    note n = merge_nth [OF False l]
    from n(1) m2 [OF j] have "money (merge ?s2 ra rb ! j) = money (s ! j)" by simp
    moreover have "j \<in> set p \<union> set q0 \<or> j = ?lo"
      if "parent (merge ?s2 ra rb ! j) \<noteq> parent (s ! j)"
    proof (rule ccontr)
      assume c: "\<not> (j \<in> set p \<union> set q0 \<or> j = ?lo)"
      with p2 [OF j] have "parent (?s2 ! j) = parent (s ! j)" by blast
      moreover from c r2 [OF b(1)] r2 [OF b(2)]
      have "parent (merge ?s2 ra rb ! j) = parent (?s2 ! j)" by (intro n(2)) simp
      ultimately show False using that by simp
    qed
    moreover from n(3) r2 [OF j] r2 [OF b(1)] r2 [OF b(2)]
    have "rank (merge ?s2 ra rb ! j) =
       (if j = ra \<and> rank (s ! ra) = rank (s ! rb) then rank (s ! ra) + 1 else rank (s ! j))"
      by simp
    ultimately show ?thesis using False by (auto split: if_splits)
  qed
  have len: "length ?s' = length s" by simp
  show "\<exists>pa pb ra rb s'. nodeUnion s a b = Some (Inr (), s') \<and>
            walk (parents s) a pa ra \<and> walk (parents s) b pb rb \<and> length s' = length s \<and>
            (\<forall>j<length s. money (s' ! j) = money (s ! j) \<and>
               (parent (s' ! j) \<noteq> parent (s ! j) \<longrightarrow>
                  j \<in> set pa \<union> set pb \<or>
                  ra \<noteq> rb \<and> j = (if sint (rank (s ! ra)) < sint (rank (s ! rb)) then ra else rb)) \<and>
               (rank (s' ! j) \<noteq> rank (s ! j) \<longrightarrow>
                  ra \<noteq> rb \<and> rank (s ! ra) = rank (s ! rb) \<and> j = ra \<and>
                  rank (s' ! j) = rank (s ! j) + 1))"
    apply (rule exI [of _ p], rule exI [of _ q0], rule exI [of _ ra], rule exI [of _ rb],
        rule exI [of _ ?s'])
    apply (intro conjI allI impI)
    apply (rule u wa wb len)+
    using fr apply blast+
    done
qed

lemma chain5_reached:
  "run (make [1, 2, 3, 4, 5]) [NodeUnion 0 1, NodeUnion 2 3, NodeUnion 0 2] = Some (Inr (), chain5)"
  by code_simp

lemma chain5_valid: "valid chain5"
  using chain5_reached by (rule run_reaches_valid)

lemma chain5_union: "nodeUnion chain5 3 4 = Some (Inr (), flat5)"
  by code_simp

theorem C10_frame_witness:
  "valid chain5 \<and> 3 < length chain5 \<and> 4 < length chain5 \<and>
   nodeUnion chain5 3 4 = Some (Inr (), flat5) \<and>
   money (flat5 ! 3) = money (chain5 ! 3) \<and> rank (flat5 ! 0) = rank (chain5 ! 0)"
proof -
  have l: "3 < length chain5" "4 < length chain5" by (simp_all add: chain5_def)
  from C10_frame [OF chain5_valid l] chain5_union
  have "\<forall>j<length chain5. money (flat5 ! j) = money (chain5 ! j)" by auto
  with l have "money (flat5 ! 3) = money (chain5 ! 3)" by blast
  moreover have "rank (flat5 ! 0) = rank (chain5 ! 0)" by (simp add: flat5_def chain5_def)
  ultimately show ?thesis using chain5_valid l chain5_union by simp
qed

theorem C10_counterexample:
  "run (make [1, 2, 3, 4, 5]) [NodeUnion 0 1, NodeUnion 2 3, NodeUnion 0 2] = Some (Inr (), chain5) \<and>
   find_node chain5 3 = Some (Inr 0, chain5[3 := \<lparr>parent = 0, rank = 0, money = 4\<rparr>]) \<and>
   find_node (chain5[3 := \<lparr>parent = 0, rank = 0, money = 4\<rparr>]) 4 =
     Some (Inr 4, chain5[3 := \<lparr>parent = 0, rank = 0, money = 4\<rparr>]) \<and>
   nodeUnion chain5 3 4 = Some (Inr (), flat5) \<and>
   parent (chain5 ! 4) = 4 \<and> parent (flat5 ! 4) = 0 \<and>
   parent (chain5 ! 3) = 2 \<and> parent (flat5 ! 3) = 0"
proof -
  let ?t = "chain5[3 := \<lparr>parent = 0, rank = 0, money = 4\<rparr>]"
  have "find_node chain5 3 = Some (Inr 0, ?t)" by code_simp
  moreover have "find_node ?t 4 = Some (Inr 4, ?t)" by code_simp
  moreover have "parent (chain5 ! 4) = 4" "parent (flat5 ! 4) = 0"
    "parent (chain5 ! 3) = 2" "parent (flat5 ! 3) = 0"
    by (simp_all add: chain5_def flat5_def)
  ultimately show ?thesis using chain5_reached chain5_union by simp
qed

section \<open>Pointers that are no node\<close>

text \<open>
  C4 (as amended). The code validates no pointer and no index, and has no error to
  report. On entities of a valid forest \<open>find\<close>, \<open>nodeUnion\<close> and \<open>query\<close> return
  without a fault. A call on an index outside the array has undefined behaviour; nothing
  is stated of it.
\<close>

theorem C4_no_validation:
  assumes "valid s"
  shows "(a < length s \<longrightarrow> (\<exists>r s'. find_node s a = Some (Inr r, s'))) \<and>
         (a < length s \<and> b < length s \<longrightarrow>
            (\<exists>s'. nodeUnion s a b = Some (Inr (), s')) \<and> (\<exists>t s'. query s a b = Some (Inr t, s')))"
proof (intro conjI impI)
  assume "a < length s"
  with assms show "\<exists>r s'. find_node s a = Some (Inr r, s')" by (blast elim: find_node_valid)
next
  assume "a < length s \<and> b < length s"
  with assms show "\<exists>s'. nodeUnion s a b = Some (Inr (), s')" by (blast elim: nodeUnion_valid)
next
  assume "a < length s \<and> b < length s"
  with assms show "\<exists>t s'. query s a b = Some (Inr t, s')" by (blast elim: query_valid)
qed

theorem C4_no_validation_witness:
  "valid chain4 \<and> 1 < length chain4 \<and> 3 < length chain4 \<and>
   find_node chain4 1 = Some (Inr 0, chain4) \<and>
   (\<exists>s'. nodeUnion chain4 1 3 = Some (Inr (), s')) \<and>
   (\<exists>s'. query chain4 1 3 = Some (Inr True, s'))"
proof -
  have l: "1 < length chain4" "3 < length chain4" by (simp_all add: chain4_def)
  have f: "find_node chain4 1 = Some (Inr 0, chain4)" by code_simp
  have q: "map_option fst (query chain4 1 3) = Some (Inr True)" by code_simp
  from C4_no_validation [OF chain4_valid, of 1 3] l
  have "\<exists>s'. nodeUnion chain4 1 3 = Some (Inr (), s')" "\<exists>t s'. query chain4 1 3 = Some (Inr t, s')"
    by simp_all
  moreover from this(2) q have "\<exists>s'. query chain4 1 3 = Some (Inr True, s')" by auto
  ultimately show ?thesis using chain4_valid l f by simp
qed

text \<open>
  The union \<open>(3,7)\<close> on \<open>chain4\<close>, four nodes: line 22 runs \<open>find\<close> on entity 3, which
  returns with the parent of 3 rewritten, before the pointer 7 is touched at all.
\<close>

theorem C4_counterexample:
  "run (make [1, 2, 3, 4]) [NodeUnion 0 1, NodeUnion 2 3, NodeUnion 0 2] = Some (Inr (), chain4) \<and>
   length chain4 = 4 \<and>
   find_node chain4 3 = Some (Inr 0, chain4[3 := \<lparr>parent = 0, rank = 0, money = 4\<rparr>]) \<and>
   parent (chain4 ! 3) = 2 \<and>
   parent (chain4[3 := \<lparr>parent = 0, rank = 0, money = 4\<rparr>] ! 3) = 0 \<and>
   nodeUnion chain4 3 7 =
     Some (Inl InvalidDereference, chain4[3 := \<lparr>parent = 0, rank = 0, money = 4\<rparr>])"
proof -
  let ?t = "chain4[3 := \<lparr>parent = 0, rank = 0, money = 4\<rparr>]"
  have "find_node chain4 3 = Some (Inr 0, ?t)" by code_simp
  moreover have "nodeUnion chain4 3 7 = Some (Inl InvalidDereference, ?t)" by code_simp
  moreover have "length chain4 = 4" "parent (chain4 ! 3) = 2" "parent (?t ! 3) = 0"
    by (simp_all add: chain4_def)
  ultimately show ?thesis using chain4_reached by simp
qed

section \<open>The verifier\<close>

subsection \<open>The running sums\<close>

lemma map_of_accumulate:
  "map_of (accumulate sums p m) = (map_of sums)(p \<mapsto> sums_at sums p + m)"
  by (auto simp: accumulate_def sums_at_def Let_def update_conv' fun_eq_iff)

lemma distinct_accumulate:
  "distinct (map fst sums) \<Longrightarrow> distinct (map fst (accumulate sums p m))"
  by (simp add: accumulate_def Let_def distinct_update)

lemma sums_at_accumulate:
  "sums_at (accumulate sums p m) k = (if k = p then sums_at sums p + m else sums_at sums k)"
  by (simp add: sums_at_def map_of_accumulate)

lemma sums_at_Nil [simp]: "sums_at [] k = 0"
  by (simp add: sums_at_def)

lemma dom_accumulate: "dom (map_of (accumulate sums p m)) = insert p (dom (map_of sums))"
  by (simp add: map_of_accumulate)

lemma tally_Nil [simp]: "tally rt f sums [] = sums"
  by (simp add: tally_def)

lemma tally_Cons [simp]: "tally rt f sums (i # is) = tally rt f (accumulate sums (rt i) (f i)) is"
  by (simp add: tally_def)

lemma sums_at_tally:
  "sums_at (tally rt f sums is) k = sums_at sums k + sum_list (map f (filter (\<lambda>i. rt i = k) is))"
  by (induction "is" arbitrary: sums) (simp_all add: sums_at_accumulate add.assoc)

lemma dom_tally: "dom (map_of (tally rt f sums is)) = dom (map_of sums) \<union> rt ` set is"
  by (induction "is" arbitrary: sums) (simp_all add: dom_accumulate)

lemma distinct_tally: "distinct (map fst sums) \<Longrightarrow> distinct (map fst (tally rt f sums is))"
  by (induction "is" arbitrary: sums) (simp_all add: distinct_accumulate)

lemma check_sums_iff: "check_sums sums = POSSIBLE \<longleftrightarrow> (\<forall>el\<in>set sums. snd el = 0)"
  by (induction sums) simp_all

lemma check_sums_dom:
  assumes "distinct (map fst sums)"
  shows "check_sums sums = POSSIBLE \<longleftrightarrow> (\<forall>k\<in>dom (map_of sums). sums_at sums k = 0)"
proof
  assume p: "check_sums sums = POSSIBLE"
  show "\<forall>k\<in>dom (map_of sums). sums_at sums k = 0"
  proof
    fix k
    assume "k \<in> dom (map_of sums)"
    then obtain v where v: "map_of sums k = Some v" by blast
    then have "(k, v) \<in> set sums" by (rule map_of_SomeD)
    with p have "v = 0" by (auto simp: check_sums_iff)
    with v show "sums_at sums k = 0" by (simp add: sums_at_def)
  qed
next
  assume d: "\<forall>k\<in>dom (map_of sums). sums_at sums k = 0"
  have "snd el = 0" if "el \<in> set sums" for el
  proof -
    from that assms have "map_of sums (fst el) = Some (snd el)" by simp
    with d show ?thesis by (force simp: sums_at_def)
  qed
  then show "check_sums sums = POSSIBLE" by (simp add: check_sums_iff)
qed

lemma check_sums_tally:
  "check_sums (tally rt f [] is) = POSSIBLE \<longleftrightarrow>
     (\<forall>k\<in>rt ` set is. sum_list (map f (filter (\<lambda>i. rt i = k) is)) = 0)"
proof -
  have "distinct (map fst (tally rt f [] is))" by (rule distinct_tally) simp
  from check_sums_dom [OF this] show ?thesis
    by (simp add: dom_tally sums_at_tally)
qed

subsection \<open>The scan\<close>

lemma rep_eq: "root_of s i r \<Longrightarrow> rep s i = r"
  unfolding rep_def using root_of_det by blast

lemma rep_cong: "root_of t = root_of s \<Longrightarrow> rep t = rep s"
  by (simp add: rep_def fun_eq_iff)

lemma rep_root: "valid s \<Longrightarrow> i < length s \<Longrightarrow> root_of s i (rep s i)"
  using rep_eq by (fastforce simp: valid_def)

lemma sum_loop_valid:
  assumes "valid s" "\<forall>i\<in>set is. i < length s"
  shows "\<exists>s'. sum_loop s sums is =
               Some (Inr (tally (rep s) (\<lambda>i. map money s ! i) sums is), s') \<and>
             valid s' \<and> length s' = length s \<and> root_of s' = root_of s \<and>
             map money s' = map money s"
  using assms
proof (induction "is" arbitrary: s sums)
  case Nil
  then show ?case by simp
next
  case (Cons i "is")
  from Cons.prems have i: "i < length s" by simp
  with Cons.prems(1) obtain p r where w: "walk (parents s) i p r"
    and f: "find_node s i = Some (Inr r, compress s p r)"
    and v1: "valid (compress s p r)" and e1: "root_of (compress s p r) = root_of s"
    by (rule find_node_valid)
  let ?s1 = "compress s p r"
  from w have "root_of s i r" by (auto simp: root_of_def)
  then have r: "rep s i = r" by (rule rep_eq)
  from i have m: "money (?s1 ! i) = map money s ! i" by (simp add: compress_frame)
  from Cons.prems(2) have "\<forall>j\<in>set is. j < length ?s1" by simp
  from Cons.IH [OF v1 this, of "accumulate sums r (money (?s1 ! i))"]
  obtain s' where "sum_loop ?s1 (accumulate sums r (money (?s1 ! i))) is =
        Some (Inr (tally (rep ?s1) (\<lambda>i. map money ?s1 ! i)
                 (accumulate sums r (money (?s1 ! i))) is), s')"
    and s': "valid s'" "length s' = length ?s1" "root_of s' = root_of ?s1"
      "map money s' = map money ?s1"
    by blast
  with f r m rep_cong [OF e1]
  have "sum_loop s sums (i # is) = Some (Inr (tally (rep s) (\<lambda>i. map money s ! i) sums (i # is)), s')"
    by simp
  with s' e1 show ?case by simp
qed

lemma tally_rep_sum:
  assumes "valid s" "distinct is" "set is = {..<length s}"
  shows "sum_list (map (\<lambda>i. map money s ! i) (filter (\<lambda>i. rep s i = k) is)) = rep_sum s k"
proof -
  have set: "set (filter (\<lambda>i. rep s i = k) is) = {i. root_of s i k}"
    using assms(1,3) rep_root rep_eq root_of_bounds by auto
  have "sum_list (map (\<lambda>i. map money s ! i) (filter (\<lambda>i. rep s i = k) is)) =
        sum (\<lambda>i. map money s ! i) (set (filter (\<lambda>i. rep s i = k) is))"
    using assms(2) by (intro sum_list_distinct_conv_sum_set) simp
  also have "\<dots> = sum (\<lambda>i. money (s ! i)) {i. root_of s i k}"
    unfolding set using root_of_bounds by (intro sum.cong) auto
  finally show ?thesis by (simp add: rep_sum_def)
qed

lemma rep_sum_empty: "\<not> (\<exists>i. root_of s i k) \<Longrightarrow> rep_sum s k = 0"
  by (simp add: rep_sum_def)

lemma verify_scan_valid:
  assumes "valid s" "distinct is" "set is = {..<length s}"
  shows "\<exists>s'. verify_scan s is =
           Some (Inr (if \<forall>r. rep_sum s r = 0 then POSSIBLE else IMPOSSIBLE), s')"
proof -
  from assms(3) have "\<forall>i\<in>set is. i < length s" by simp
  from sum_loop_valid [OF assms(1) this, of "[]"] obtain s' where
    l: "sum_loop s [] is = Some (Inr (tally (rep s) (\<lambda>i. map money s ! i) [] is), s')"
    by blast
  let ?T = "tally (rep s) (\<lambda>i. map money s ! i) [] is"
  have "check_sums ?T = POSSIBLE \<longleftrightarrow> (\<forall>k\<in>rep s ` set is. rep_sum s k = 0)"
    unfolding check_sums_tally using tally_rep_sum [OF assms] by simp
  also have "\<dots> \<longleftrightarrow> (\<forall>r. rep_sum s r = 0)"
  proof
    assume a: "\<forall>k\<in>rep s ` set is. rep_sum s k = 0"
    show "\<forall>r. rep_sum s r = 0"
    proof
      fix r
      show "rep_sum s r = 0"
      proof (cases "\<exists>i. root_of s i r")
        case True
        then obtain i where i: "root_of s i r" by blast
        then have "i \<in> set is" "rep s i = r" using assms(3) root_of_bounds rep_eq by auto
        with a show ?thesis by blast
      next
        case False
        then show ?thesis by (rule rep_sum_empty)
      qed
    qed
  qed simp
  finally have "check_sums ?T = (if \<forall>r. rep_sum s r = 0 then POSSIBLE else IMPOSSIBLE)"
    by (cases "check_sums ?T") auto
  with l show ?thesis by (simp add: verify_scan_def)
qed

lemma verify_valid:
  assumes "valid s"
  shows "\<exists>s'. verify s = Some (Inr (if \<forall>r. rep_sum s r = 0 then POSSIBLE else IMPOSSIBLE), s')"
  unfolding verify_def using assms by (rule verify_scan_valid) (simp_all add: atLeast0LessThan)

subsection \<open>Integer sums\<close>

lemma rep_sum_int_sum: "rep_sum s r = word_of_int (int_sum s r)"
  by (simp add: rep_sum_def int_sum_def)

lemma rep_sum_zero_iff: "rep_sum s r = 0 \<longleftrightarrow> 2 ^ 32 dvd int_sum s r"
  by (simp add: rep_sum_int_sum word_of_int_eq_0_iff)

lemma int_sum_bound:
  assumes "\<forall>i<length s. \<bar>sint (money (s ! i))\<bar> \<le> M"
  shows "\<bar>int_sum s r\<bar> \<le> int (length s) * M"
proof (cases "\<exists>i. root_of s i r")
  case False
  then have "int_sum s r = 0" by (simp add: int_sum_def)
  moreover from False assms have "0 \<le> int (length s) * M"
    by (cases "length s") (auto intro: order_trans [OF abs_ge_zero])
  ultimately show ?thesis by simp
next
  case True
  let ?G = "{i. root_of s i r}"
  have sub: "?G \<subseteq> {..<length s}" using root_of_bounds by auto
  then have fin: "finite ?G" by (rule finite_subset) simp
  from True obtain i where "i \<in> ?G" by blast
  with sub assms have M: "0 \<le> M" by (force intro: order_trans [OF abs_ge_zero])
  have "\<bar>int_sum s r\<bar> \<le> (\<Sum>i\<in>?G. \<bar>sint (money (s ! i))\<bar>)"
    unfolding int_sum_def by (rule sum_abs)
  also have "\<dots> \<le> (\<Sum>i\<in>?G. M)" using sub assms by (intro sum_mono) auto
  also have "\<dots> = int (card ?G) * M" by simp
  also have "\<dots> \<le> int (length s) * M"
  proof -
    from sub have "card ?G \<le> card {..<length s}" by (intro card_mono) simp_all
    then have "int (card ?G) \<le> int (length s)" by simp
    then show ?thesis using M by (rule mult_right_mono)
  qed
  finally show ?thesis .
qed

lemma unions_coarser: "unions (make ms) us = Some (Inr (), s) \<Longrightarrow> coarser (make ms) s"
  unfolding unions_run using make_valid by (rule run_coarser)

lemma dvd_small: "\<bar>k :: int\<bar> < 2 ^ 32 \<Longrightarrow> 2 ^ 32 dvd k \<longleftrightarrow> k = 0"
proof
  assume b: "\<bar>k\<bar> < 2 ^ 32" and d: "(2 ^ 32 :: int) dvd k"
  show "k = 0"
  proof (rule ccontr)
    assume "k \<noteq> 0"
    with d have "\<bar>2 ^ 32 :: int\<bar> \<le> \<bar>k\<bar>" by (intro dvd_imp_le_int)
    with b show False by simp
  qed
qed simp

lemma verify_int_sum:
  assumes "valid s"
  shows "\<exists>s'. verify s =
           Some (Inr (if \<forall>r. 2 ^ 32 dvd int_sum s r then POSSIBLE else IMPOSSIBLE), s')"
  using verify_valid [OF assms] by (simp add: rep_sum_zero_iff)

text \<open>
  C1 (as amended). The code adds the values in \<open>int\<close>; with the 32-bit \<open>int\<close> and its
  wrap-around, \<open>verify\<close> on a valid forest returns \<open>POSSIBLE\<close> exactly when the integer
  sum of the values of every group (the entities with one root) is a multiple of \<open>2^32\<close>.
  Where every group's integer sum has a magnitude below \<open>2^32\<close>, this is exactly when
  every group's sum is zero. The empty forest is \<open>POSSIBLE\<close>, and the program gives the
  verdict of \<open>verify\<close> on the forest that its union requests, all on entities of the
  forest, build.
\<close>

theorem C1_verify_zero_sum:
  "(valid s \<longrightarrow>
      (\<exists>s'. verify s =
         Some (Inr (if \<forall>r. 2 ^ 32 dvd int_sum s r then POSSIBLE else IMPOSSIBLE), s')) \<and>
      ((\<forall>r. \<bar>int_sum s r\<bar> < 2 ^ 32) \<longrightarrow>
         (\<exists>s'. verify s =
            Some (Inr (if \<forall>r. int_sum s r = 0 then POSSIBLE else IMPOSSIBLE), s')))) \<and>
   verify [] = Some (Inr POSSIBLE, []) \<and>
   ((\<forall>ab\<in>set us. fst ab < length ms \<and> snd ab < length ms) \<longrightarrow>
      (\<exists>s. unions (make ms) us = Some (Inr (), s) \<and> valid s \<and> map money s = ms \<and>
           main ms us =
             Some (Inr (if \<forall>r. 2 ^ 32 dvd int_sum s r then POSSIBLE else IMPOSSIBLE))))"
proof (intro conjI impI)
  assume v: "valid s"
  then show m: "\<exists>s'. verify s =
         Some (Inr (if \<forall>r. 2 ^ 32 dvd int_sum s r then POSSIBLE else IMPOSSIBLE), s')"
    by (rule verify_int_sum)
  assume "\<forall>r. \<bar>int_sum s r\<bar> < 2 ^ 32"
  then have "2 ^ 32 dvd int_sum s r \<longleftrightarrow> int_sum s r = 0" for r
    using dvd_small [of "int_sum s r"] by blast
  then have "(\<forall>r. 2 ^ 32 dvd int_sum s r) \<longleftrightarrow> (\<forall>r. int_sum s r = 0)"
    by blast
  with m show "\<exists>s'. verify s =
            Some (Inr (if \<forall>r. int_sum s r = 0 then POSSIBLE else IMPOSSIBLE), s')"
    by simp
next
  show "verify [] = Some (Inr POSSIBLE, [])"
    by (simp add: verify_def verify_scan_def)
next
  assume r: "\<forall>ab\<in>set us. fst ab < length ms \<and> snd ab < length ms"
  then have "\<forall>c\<in>set (map (\<lambda>(a, b). NodeUnion a b) us). in_range (length (make ms)) c"
    by auto
  with run_valid [OF make_valid] obtain s where
    u: "unions (make ms) us = Some (Inr (), s)" unfolding unions_run by blast
  then have c: "coarser (make ms) s" by (rule unions_coarser)
  then have v: "valid s" and m: "map money s = ms" by (simp_all add: coarser_def)
  from v obtain s' where
    "verify s = Some (Inr (if \<forall>r. 2 ^ 32 dvd int_sum s r then POSSIBLE else IMPOSSIBLE), s')"
    using verify_int_sum by blast
  with u v m show "\<exists>s. unions (make ms) us = Some (Inr (), s) \<and> valid s \<and> map money s = ms \<and>
           main ms us =
             Some (Inr (if \<forall>r. 2 ^ 32 dvd int_sum s r then POSSIBLE else IMPOSSIBLE))"
    by (simp add: main_def)
qed

theorem C1_verify_zero_sum_witness:
  "unions (make [10, - 10, 0, 7, - 7]) [(0, 1), (3, 4)] =
     Some (Inr (), [\<lparr>parent = 0, rank = 1, money = 10\<rparr>, \<lparr>parent = 0, rank = 0, money = - 10\<rparr>,
                    \<lparr>parent = 2, rank = 0, money = 0\<rparr>, \<lparr>parent = 3, rank = 1, money = 7\<rparr>,
                    \<lparr>parent = 3, rank = 0, money = - 7\<rparr>]) \<and>
   valid [\<lparr>parent = 0, rank = 1, money = 10\<rparr>, \<lparr>parent = 0, rank = 0, money = - 10\<rparr>,
          \<lparr>parent = 2, rank = 0, money = 0\<rparr>, \<lparr>parent = 3, rank = 1, money = 7\<rparr>,
          \<lparr>parent = 3, rank = 0, money = - 7\<rparr>] \<and>
   (\<forall>r. \<bar>int_sum [\<lparr>parent = 0, rank = 1, money = 10\<rparr>, \<lparr>parent = 0, rank = 0, money = - 10\<rparr>,
                   \<lparr>parent = 2, rank = 0, money = 0\<rparr>, \<lparr>parent = 3, rank = 1, money = 7\<rparr>,
                   \<lparr>parent = 3, rank = 0, money = - 7\<rparr>] r\<bar> < 2 ^ 32) \<and>
   verify [\<lparr>parent = 0, rank = 1, money = 10\<rparr>, \<lparr>parent = 0, rank = 0, money = - 10\<rparr>,
           \<lparr>parent = 2, rank = 0, money = 0\<rparr>, \<lparr>parent = 3, rank = 1, money = 7\<rparr>,
           \<lparr>parent = 3, rank = 0, money = - 7\<rparr>] =
     Some (Inr POSSIBLE,
           [\<lparr>parent = 0, rank = 1, money = 10\<rparr>, \<lparr>parent = 0, rank = 0, money = - 10\<rparr>,
            \<lparr>parent = 2, rank = 0, money = 0\<rparr>, \<lparr>parent = 3, rank = 1, money = 7\<rparr>,
            \<lparr>parent = 3, rank = 0, money = - 7\<rparr>]) \<and>
   (\<forall>r. int_sum [\<lparr>parent = 0, rank = 1, money = 10\<rparr>, \<lparr>parent = 0, rank = 0, money = - 10\<rparr>,
                  \<lparr>parent = 2, rank = 0, money = 0\<rparr>, \<lparr>parent = 3, rank = 1, money = 7\<rparr>,
                  \<lparr>parent = 3, rank = 0, money = - 7\<rparr>] r = 0) \<and>
   main [3, - 3, 5, - 5] [(0, 1), (2, 3)] = Some (Inr POSSIBLE) \<and>
   main [3, - 3, 5, - 4] [(0, 1), (2, 3)] = Some (Inr IMPOSSIBLE) \<and>
   main [0, 0, 0] [] = Some (Inr POSSIBLE) \<and>
   main [1, - 1] [(0, 1), (0, 1)] = Some (Inr POSSIBLE) \<and>
   main [10, - 10, 0, 7, - 7] [(0, 1), (3, 4)] = Some (Inr POSSIBLE) \<and>
   main [5] [] = Some (Inr IMPOSSIBLE) \<and>
   main [] [] = Some (Inr POSSIBLE)"
proof -
  let ?s = "[\<lparr>parent = 0, rank = 1, money = 10\<rparr>, \<lparr>parent = 0, rank = 0, money = - 10\<rparr>,
             \<lparr>parent = 2, rank = 0, money = 0\<rparr>, \<lparr>parent = 3, rank = 1, money = 7\<rparr>,
             \<lparr>parent = 3, rank = 0, money = - 7\<rparr>] :: forest"
  have u: "unions (make [10, - 10, 0, 7, - 7]) [(0, 1), (3, 4)] = Some (Inr (), ?s)" by code_simp
  from unions_coarser [OF u] have v: "valid ?s" by (simp add: coarser_def)
  have "list_all (\<lambda>nd. \<bar>sint (money nd)\<bar> \<le> 10) ?s" by simp
  then have "\<forall>i<length ?s. \<bar>sint (money (?s ! i))\<bar> \<le> 10" by (simp only: list_all_length)
  from int_sum_bound [OF this] have "\<bar>int_sum ?s r\<bar> \<le> 50" for r
    by simp
  then have b: "\<forall>r. \<bar>int_sum ?s r\<bar> < 2 ^ 32"
    by (intro allI, rule le_less_trans) simp_all
  have e: "verify ?s = Some (Inr POSSIBLE, ?s)" by code_simp
  from C1_verify_zero_sum [of ?s "[]" "[]"] v b e
  have "(if \<forall>r. int_sum ?s r = 0 then POSSIBLE else IMPOSSIBLE) = POSSIBLE" by auto
  then have z: "\<forall>r. int_sum ?s r = 0" by (simp split: if_splits)
  have "main [3, - 3, 5, - 5] [(0, 1), (2, 3)] = Some (Inr POSSIBLE)" by code_simp
  moreover have "main [3, - 3, 5, - 4] [(0, 1), (2, 3)] = Some (Inr IMPOSSIBLE)" by code_simp
  moreover have "main [0, 0, 0] [] = Some (Inr POSSIBLE)" by code_simp
  moreover have "main [1, - 1] [(0, 1), (0, 1)] = Some (Inr POSSIBLE)" by code_simp
  moreover have "main [10, - 10, 0, 7, - 7] [(0, 1), (3, 4)] = Some (Inr POSSIBLE)" by code_simp
  moreover have "main [5] [] = Some (Inr IMPOSSIBLE)" by code_simp
  moreover have "main [] [] = Some (Inr POSSIBLE)" by code_simp
  ultimately show ?thesis using u v b e z by simp
qed

text \<open>
  Two entities of value \<open>INT_MIN\<close> in one group: the integer sum is \<open>- 2^32\<close>, not zero,
  and the verdict is \<open>POSSIBLE\<close>.
\<close>

theorem C1_counterexample:
  "unions (make [- 2147483648, - 2147483648]) [(0, 1)] = Some (Inr (), low2) \<and>
   valid low2 \<and>
   sint (money (low2 ! 0)) = - 2147483648 \<and> sint (money (low2 ! 1)) = - 2147483648 \<and>
   {i. root_of low2 i 0} = {0, 1} \<and>
   int_sum low2 0 = - 4294967296 \<and>
   verify low2 = Some (Inr POSSIBLE, low2) \<and>
   main [- 2147483648, - 2147483648] [(0, 1)] = Some (Inr POSSIBLE)"
proof -
  have u: "unions (make [- 2147483648, - 2147483648]) [(0, 1)] = Some (Inr (), low2)"
    by code_simp
  from unions_coarser [OF u] have v: "valid low2" by (simp add: coarser_def)
  have m: "sint (money (low2 ! 0)) = - 2147483648" "sint (money (low2 ! 1)) = - 2147483648"
    by (simp_all add: low2_def)
  have r0: "root_of low2 0 0"
    unfolding root_of_def using walk.at_root [of 0 "parents low2"]
    by (auto simp: low2_def parents_def)
  have r1: "root_of low2 1 0"
    unfolding root_of_def
    using walk.up [of 1 "parents low2" "[]" 0] walk.at_root [of 0 "parents low2"]
    by (auto simp: low2_def parents_def)
  have g: "{i. root_of low2 i 0} = {0, 1}"
  proof (intro set_eqI iffI)
    fix i
    assume "i \<in> {i. root_of low2 i 0}"
    then have "i < length low2" using root_of_bounds by blast
    then show "i \<in> {0, 1}" by (auto simp: low2_def)
  next
    fix i :: nat
    assume "i \<in> {0, 1}"
    with r0 r1 show "i \<in> {i. root_of low2 i 0}" by auto
  qed
  have s: "int_sum low2 0 = - 4294967296" unfolding int_sum_def g using m by simp
  have e: "verify low2 = Some (Inr POSSIBLE, low2)" by code_simp
  have "main [- 2147483648, - 2147483648] [(0, 1)] = Some (Inr POSSIBLE)" by code_simp
  with u v m g s e show ?thesis by simp
qed

section \<open>The verdict depends on the partition only\<close>

lemma all_rep_sum_grouped:
  assumes "valid s"
  shows "(\<forall>r. rep_sum s r = 0) \<longleftrightarrow>
         (\<forall>x<length s. (\<Sum>i | grouped s i x. map money s ! i) = 0)"
proof -
  have key: "(\<Sum>i | grouped s i x. map money s ! i) = rep_sum s k" if "root_of s x k" for x k
  proof -
    have "{i. grouped s i x} = {i. root_of s i k}"
      using that root_of_det by (auto simp: grouped_def)
    then show ?thesis
      unfolding rep_sum_def using root_of_bounds by (intro sum.cong) auto
  qed
  show ?thesis
  proof
    assume a: "\<forall>r. rep_sum s r = 0"
    show "\<forall>x<length s. (\<Sum>i | grouped s i x. map money s ! i) = 0"
    proof (intro allI impI)
      fix x
      assume "x < length s"
      with assms obtain k where "root_of s x k" by (auto simp: valid_def)
      from key [OF this] a show "(\<Sum>i | grouped s i x. map money s ! i) = 0" by simp
    qed
  next
    assume a: "\<forall>x<length s. (\<Sum>i | grouped s i x. map money s ! i) = 0"
    show "\<forall>r. rep_sum s r = 0"
    proof
      fix r
      show "rep_sum s r = 0"
      proof (cases "\<exists>i. root_of s i r")
        case True
        then obtain i where i: "root_of s i r" by blast
        then have "i < length s" using root_of_bounds by blast
        with a key [OF i] show ?thesis by simp
      next
        case False
        then show ?thesis by (rule rep_sum_empty)
      qed
    qed
  qed
qed

text \<open>
  C8. Let two sequences of union requests on the same values build forests with the same
  groups. Then \<open>verify\<close> returns the same verdict on both, and a scan of the entities in
  any order (each entity once) gives that verdict as well.
\<close>

theorem C8_verdict_of_partition:
  assumes "unions (make ms) us1 = Some (Inr (), s1)"
    and "unions (make ms) us2 = Some (Inr (), s2)"
    and "\<forall>a<length ms. \<forall>b<length ms. grouped s1 a b = grouped s2 a b"
    and "distinct is" and "set is = {..<length ms}"
  shows "\<exists>v t1 t2 t3. verify s1 = Some (Inr v, t1) \<and> verify s2 = Some (Inr v, t2) \<and>
           verify_scan s1 is = Some (Inr v, t3)"
proof -
  from assms(1) have c1: "valid s1" "length s1 = length ms" "map money s1 = ms"
    using unions_coarser by (fastforce simp: coarser_def)+
  from assms(2) have c2: "valid s2" "length s2 = length ms" "map money s2 = ms"
    using unions_coarser by (fastforce simp: coarser_def)+
  have g: "grouped s1 = grouped s2"
  proof (intro ext)
    fix a b
    show "grouped s1 a b = grouped s2 a b"
    proof (cases "a < length ms \<and> b < length ms")
      case True
      with assms(3) show ?thesis by blast
    next
      case False
      with c1(2) c2(2) have "\<not> grouped s1 a b" "\<not> grouped s2 a b"
        using root_of_bounds by (fastforce simp: grouped_def)+
      then show ?thesis by simp
    qed
  qed
  let ?v1 = "if \<forall>r. rep_sum s1 r = 0 then POSSIBLE else IMPOSSIBLE"
  let ?v2 = "if \<forall>r. rep_sum s2 r = 0 then POSSIBLE else IMPOSSIBLE"
  from all_rep_sum_grouped [OF c1(1)] all_rep_sum_grouped [OF c2(1)] c1(2,3) c2(2,3) g
  have "(\<forall>r. rep_sum s1 r = 0) \<longleftrightarrow> (\<forall>r. rep_sum s2 r = 0)" by simp
  then have e: "?v2 = ?v1" by simp
  from verify_valid [OF c1(1)] obtain t1 where t1: "verify s1 = Some (Inr ?v1, t1)" by blast
  from verify_valid [OF c2(1)] e obtain t2 where t2: "verify s2 = Some (Inr ?v1, t2)" by auto
  from assms(4,5) c1(2) verify_scan_valid [OF c1(1), of "is"]
  obtain t3 where t3: "verify_scan s1 is = Some (Inr ?v1, t3)" by auto
  from t1 t2 t3 show ?thesis by blast
qed

lemma grouped_query:
  assumes "valid s" "a < length s" "b < length s"
  shows "grouped s a b \<longleftrightarrow> map_option fst (query s a b) = Some (Inr True)"
proof -
  from assms obtain s' where "query s a b = Some (Inr (grouped s a b), s')" by (rule query_valid)
  then show ?thesis by simp
qed

theorem C8_verdict_of_partition_witness:
  "unions (make [3, - 3, 5, - 5]) [(0, 1), (2, 3)] =
     Some (Inr (), [\<lparr>parent = 0, rank = 1, money = 3\<rparr>, \<lparr>parent = 0, rank = 0, money = - 3\<rparr>,
                    \<lparr>parent = 2, rank = 1, money = 5\<rparr>, \<lparr>parent = 2, rank = 0, money = - 5\<rparr>]) \<and>
   unions (make [3, - 3, 5, - 5]) [(3, 2), (1, 0)] =
     Some (Inr (), [\<lparr>parent = 1, rank = 0, money = 3\<rparr>, \<lparr>parent = 1, rank = 1, money = - 3\<rparr>,
                    \<lparr>parent = 3, rank = 0, money = 5\<rparr>, \<lparr>parent = 3, rank = 1, money = - 5\<rparr>]) \<and>
   distinct [3, 1, 0, 2 :: nat] \<and> set [3, 1, 0, 2] = {..<length [3, - 3, 5, - 5 :: cint]} \<and>
   (\<exists>t1 t2 t3.
      verify [\<lparr>parent = 0, rank = 1, money = 3\<rparr>, \<lparr>parent = 0, rank = 0, money = - 3\<rparr>,
              \<lparr>parent = 2, rank = 1, money = 5\<rparr>, \<lparr>parent = 2, rank = 0, money = - 5\<rparr>] =
        Some (Inr POSSIBLE, t1) \<and>
      verify [\<lparr>parent = 1, rank = 0, money = 3\<rparr>, \<lparr>parent = 1, rank = 1, money = - 3\<rparr>,
              \<lparr>parent = 3, rank = 0, money = 5\<rparr>, \<lparr>parent = 3, rank = 1, money = - 5\<rparr>] =
        Some (Inr POSSIBLE, t2) \<and>
      verify_scan [\<lparr>parent = 0, rank = 1, money = 3\<rparr>, \<lparr>parent = 0, rank = 0, money = - 3\<rparr>,
                   \<lparr>parent = 2, rank = 1, money = 5\<rparr>, \<lparr>parent = 2, rank = 0, money = - 5\<rparr>]
        [3, 1, 0, 2] = Some (Inr POSSIBLE, t3))"
proof -
  let ?ms = "[3, - 3, 5, - 5] :: cint list"
  let ?s1 = "[\<lparr>parent = 0, rank = 1, money = 3\<rparr>, \<lparr>parent = 0, rank = 0, money = - 3\<rparr>,
              \<lparr>parent = 2, rank = 1, money = 5\<rparr>, \<lparr>parent = 2, rank = 0, money = - 5\<rparr>] :: forest"
  let ?s2 = "[\<lparr>parent = 1, rank = 0, money = 3\<rparr>, \<lparr>parent = 1, rank = 1, money = - 3\<rparr>,
              \<lparr>parent = 3, rank = 0, money = 5\<rparr>, \<lparr>parent = 3, rank = 1, money = - 5\<rparr>] :: forest"
  have u1: "unions (make ?ms) [(0, 1), (2, 3)] = Some (Inr (), ?s1)" by code_simp
  have u2: "unions (make ?ms) [(3, 2), (1, 0)] = Some (Inr (), ?s2)" by code_simp
  from unions_coarser [OF u1] have v1: "valid ?s1" by (simp add: coarser_def)
  from unions_coarser [OF u2] have v2: "valid ?s2" by (simp add: coarser_def)
  have q: "\<forall>a\<in>set [0..<4]. \<forall>b\<in>set [0..<4].
             (map_option fst (query ?s1 a b) = Some (Inr True)) =
             (map_option fst (query ?s2 a b) = Some (Inr True))"
    by code_simp
  have g: "\<forall>a<length ?ms. \<forall>b<length ?ms. grouped ?s1 a b = grouped ?s2 a b"
  proof (intro allI impI)
    fix a b
    assume ab: "a < length ?ms" "b < length ?ms"
    then have "a \<in> set [0..<4]" "b \<in> set [0..<4]" by simp_all
    with q have "(map_option fst (query ?s1 a b) = Some (Inr True)) =
             (map_option fst (query ?s2 a b) = Some (Inr True))" by blast
    with ab show "grouped ?s1 a b = grouped ?s2 a b"
      using grouped_query [OF v1, of a b] grouped_query [OF v2, of a b] by simp
  qed
  have d: "distinct [3, 1, 0, 2 :: nat]" by simp
  have st: "set [3, 1, 0, 2] = {..<length ?ms}" by auto
  have e: "verify ?s1 = Some (Inr POSSIBLE, ?s1)" by code_simp
  from C8_verdict_of_partition [OF u1 u2 g d st] e
  have "\<exists>t1 t2 t3. verify ?s1 = Some (Inr POSSIBLE, t1) \<and> verify ?s2 = Some (Inr POSSIBLE, t2) \<and>
      verify_scan ?s1 [3, 1, 0, 2] = Some (Inr POSSIBLE, t3)"
    by auto
  with u1 u2 d st show ?thesis by blast
qed

section \<open>The width of \<open>int\<close>\<close>

text \<open>
  C5 (as amended). The values and the running sums are \<open>int\<close>, the type written in the
  code. With the 32-bit \<open>int\<close> and its wrap-around, the verdict on a valid forest is
  \<open>POSSIBLE\<close> exactly when the integer sum of every group is a multiple of \<open>2^32\<close>.
  Where \<open>n\<close> times a bound \<open>M\<close> of the magnitude of every value stays below \<open>2^31\<close>,
  every group's integer sum lies in the range of \<open>int\<close>, and the verdict is \<open>POSSIBLE\<close>
  exactly when every group's integer sum is zero.
\<close>

theorem C5_int_sums:
  assumes "valid s"
  shows "(\<exists>s'. verify s =
            Some (Inr (if \<forall>r. 2 ^ 32 dvd int_sum s r then POSSIBLE else IMPOSSIBLE), s')) \<and>
         ((\<forall>i<length s. \<bar>sint (money (s ! i))\<bar> \<le> M) \<and> int (length s) * M < 2 ^ 31 \<longrightarrow>
            (\<forall>r. \<bar>int_sum s r\<bar> < 2 ^ 31) \<and>
            (\<exists>s'. verify s =
               Some (Inr (if \<forall>r. int_sum s r = 0 then POSSIBLE else IMPOSSIBLE), s')))"
proof (intro conjI impI)
  from verify_valid [OF assms]
  show m: "\<exists>s'. verify s =
            Some (Inr (if \<forall>r. 2 ^ 32 dvd int_sum s r then POSSIBLE else IMPOSSIBLE), s')"
    by (simp add: rep_sum_zero_iff)
  assume b: "(\<forall>i<length s. \<bar>sint (money (s ! i))\<bar> \<le> M) \<and> int (length s) * M < 2 ^ 31"
  have lt: "\<bar>int_sum s r\<bar> < 2 ^ 31" for r
    using int_sum_bound [of s M r] b by simp
  then show "\<forall>r. \<bar>int_sum s r\<bar> < 2 ^ 31" by blast
  have "2 ^ 32 dvd int_sum s r \<longleftrightarrow> int_sum s r = 0" for r
  proof
    assume d: "2 ^ 32 dvd int_sum s r"
    show "int_sum s r = 0"
    proof (rule ccontr)
      assume "int_sum s r \<noteq> 0"
      with d have "\<bar>2 ^ 32 :: int\<bar> \<le> \<bar>int_sum s r\<bar>" by (intro dvd_imp_le_int)
      with lt [of r] show False by simp
    qed
  qed simp
  with m show "\<exists>s'. verify s =
               Some (Inr (if \<forall>r. int_sum s r = 0 then POSSIBLE else IMPOSSIBLE), s')"
    by simp
qed

theorem C5_counterexample:
  "main [1073741824, 1073741824, 1073741824, 1073741824] [(0, 1), (1, 2), (2, 3)] =
     Some (Inr POSSIBLE) \<and>
   sint (1073741824 :: cint) = 1073741824 \<and>
   (1073741824 + 1073741824 + 1073741824 + 1073741824 :: int) = 4294967296 \<and>
   (1073741824 + 1073741824 + 1073741824 + 1073741824 :: cint) = 0"
proof -
  have "main [1073741824, 1073741824, 1073741824, 1073741824] [(0, 1), (1, 2), (2, 3)] =
     Some (Inr POSSIBLE)" by code_simp
  moreover have "sint (1073741824 :: cint) = 1073741824" by simp
  moreover have "(1073741824 + 1073741824 + 1073741824 + 1073741824 :: cint) = 0" by simp
  ultimately show ?thesis by simp
qed

theorem C5_int_sums_witness:
  "valid [\<lparr>parent = 0, rank = 1, money = 3\<rparr>, \<lparr>parent = 0, rank = 0, money = - 3\<rparr>,
          \<lparr>parent = 2, rank = 1, money = 5\<rparr>, \<lparr>parent = 2, rank = 0, money = - 5\<rparr>] \<and>
   int (length [\<lparr>parent = 0, rank = 1, money = 3\<rparr>, \<lparr>parent = 0, rank = 0, money = - 3\<rparr>,
          \<lparr>parent = 2, rank = 1, money = 5\<rparr>, \<lparr>parent = 2, rank = 0, money = - 5\<rparr>]) * 5 < 2 ^ 31 \<and>
   sint (money \<lparr>parent = 2, rank = 0, money = - 5\<rparr>) = - 5 \<and>
   verify [\<lparr>parent = 0, rank = 1, money = 3\<rparr>, \<lparr>parent = 0, rank = 0, money = - 3\<rparr>,
           \<lparr>parent = 2, rank = 1, money = 5\<rparr>, \<lparr>parent = 2, rank = 0, money = - 5\<rparr>] =
     Some (Inr POSSIBLE,
          [\<lparr>parent = 0, rank = 1, money = 3\<rparr>, \<lparr>parent = 0, rank = 0, money = - 3\<rparr>,
           \<lparr>parent = 2, rank = 1, money = 5\<rparr>, \<lparr>parent = 2, rank = 0, money = - 5\<rparr>]) \<and>
   (\<forall>r. int_sum [\<lparr>parent = 0, rank = 1, money = 3\<rparr>, \<lparr>parent = 0, rank = 0, money = - 3\<rparr>,
                  \<lparr>parent = 2, rank = 1, money = 5\<rparr>, \<lparr>parent = 2, rank = 0, money = - 5\<rparr>] r = 0)"
proof -
  let ?s = "[\<lparr>parent = 0, rank = 1, money = 3\<rparr>, \<lparr>parent = 0, rank = 0, money = - 3\<rparr>,
             \<lparr>parent = 2, rank = 1, money = 5\<rparr>, \<lparr>parent = 2, rank = 0, money = - 5\<rparr>] :: forest"
  have "unions (make [3, - 3, 5, - 5]) [(0, 1), (2, 3)] = Some (Inr (), ?s)" by code_simp
  from unions_coarser [OF this] have v: "valid ?s" by (simp add: coarser_def)
  have "list_all (\<lambda>nd. \<bar>sint (money nd)\<bar> \<le> 5) ?s" by simp
  then have b: "\<forall>i<length ?s. \<bar>sint (money (?s ! i))\<bar> \<le> 5" by (simp only: list_all_length)
  have n: "int (length ?s) * 5 < 2 ^ 31" by simp
  have e: "verify ?s = Some (Inr POSSIBLE, ?s)" by code_simp
  from C5_int_sums [OF v, of 5] b n e
  have "(if \<forall>r. int_sum ?s r = 0 then POSSIBLE else IMPOSSIBLE) = POSSIBLE" by auto
  then have "\<forall>r. int_sum ?s r = 0" by (simp split: if_splits)
  moreover have "sint (money \<lparr>parent = 2, rank = 0, money = - 5\<rparr>) = - 5" by simp
  ultimately show ?thesis using v n e by simp
qed

end
